theory Spec2Isabelle
  imports Main "HOL-Library.Word" "HOL-Library.AList" "HOL-Library.List_Lexorder" "HOL-Library.Char_ord"
begin

section \<open>JavaScript primitives used by the resolver\<close>

text \<open>
  Byte buffers (\<open>Buffer\<close>, \<open>ArrayBuffer\<close>, \<open>Uint8Array\<close>) are lists of 8-bit words.
  Sizes, offsets and byte counts are JavaScript numbers holding integers; they are
  modelled as \<open>int\<close>, so that a subtraction below zero stays negative as it does in the
  source.
\<close>

type_synonym bytes = "8 word list"

text \<open>
  \<open>buf.subarray(b, e)\<close> and \<open>buf.slice(b, e)\<close>: a negative index counts from the end,
  both indices are clamped to the buffer, and an empty range gives an empty buffer.
\<close>

definition js_slice :: "'a list \<Rightarrow> int \<Rightarrow> int \<Rightarrow> 'a list" where
  "js_slice xs b e =
     (let n = int (length xs);
          from = (if b < 0 then max (n + b) 0 else min b n);
          to = (if e < 0 then max (n + e) 0 else min e n)
      in take (nat (to - from)) (drop (nat from) xs))"

text \<open>Template-literal conversion of an integral number to its decimal string.\<close>

fun string_of_nat :: "nat \<Rightarrow> string" where
  "string_of_nat n =
     (if n < 10 then [''0123456789'' ! n]
      else string_of_nat (n div 10) @ [''0123456789'' ! (n mod 10)])"

declare string_of_nat.simps [simp del]

definition string_of_int :: "int \<Rightarrow> string" where
  "string_of_int i = (if i < 0 then ''-'' @ string_of_nat (nat (- i)) else string_of_nat (nat i))"

text \<open>
  A thrown exception (a rejected promise) is a value of type \<open>error\<close>; a function that
  may throw returns \<open>error + 'a\<close>.
\<close>

datatype error =
    LocalFileNotFound string
  | HttpError int string
  | NetworkFailure
  | CacheWriteError
  | NotIterable
  | ThrownUndefined

text \<open>
  The loop \<open>for (const p of parts) buffers.push(await read(p))\<close>: the reads run in order,
  each on the state its predecessor left, and the first one that throws ends the loop.
\<close>

fun collect :: "('p \<Rightarrow> 'w \<Rightarrow> (error + 'b) \<times> 'w) \<Rightarrow> 'p list \<Rightarrow> 'w \<Rightarrow> (error + 'b list) \<times> 'w" where
  "collect rd [] w = (Inr [], w)"
| "collect rd (p # ps) w =
     (case rd p w of
        (Inl e, w') \<Rightarrow> (Inl e, w')
      | (Inr b, w') \<Rightarrow>
          (case collect rd ps w' of
             (Inl e, w'') \<Rightarrow> (Inl e, w'')
           | (Inr bs, w'') \<Rightarrow> (Inr (b # bs), w'')))"

section \<open>The filemap document\<close>

record shard =
  shard_file :: string
  shard_offset :: int
  shard_size :: int
  shard_sha256 :: "string option"

record file_entry =
  entry_size :: int
  entry_sha256 :: "string option"
  cdn_file :: "string option"
  shards :: "shard list option"

record manifest =
  manifest_files :: "string list"
  manifest_size :: int

text \<open>
  A parsed \<open>filemap.json\<close>. The objects \<open>files\<close> and \<open>manifests\<close> are association
  lists in key order, with distinct keys; \<open>Object.keys\<close> is \<open>map fst\<close>. \<open>manifests\<close> is
  optional.
\<close>

record filemap =
  fm_version :: int
  fm_files :: "(string \<times> file_entry) list"
  fm_manifests :: "(string \<times> manifest) list option"

text \<open>
  A property read \<open>obj[name]\<close> on a parsed object finds an own key first. A name that
  is not an own key but is one of the twelve properties of \<open>Object.prototype\<close> gives the
  inherited value:
  a function, or for \<open>__proto__\<close> the prototype object; such a value counts as true in a
  condition and has none of the properties of a document entry. Any other name gives
  \<open>undefined\<close>. The other property reads of the model are reads of own keys, or of
  paths that are taken not to be inherited names, and are written \<open>map_of\<close>.
\<close>

definition object_prototype_names :: "string list" where
  "object_prototype_names =
     [''constructor'', ''__defineGetter__'', ''__defineSetter__'', ''hasOwnProperty'',
      ''__lookupGetter__'', ''__lookupSetter__'', ''isPrototypeOf'', ''propertyIsEnumerable'',
      ''toString'', ''valueOf'', ''__proto__'', ''toLocaleString'']"

datatype 'a property = Own 'a | Inherited | Undefined

definition js_get :: "(string \<times> 'a) list \<Rightarrow> string \<Rightarrow> 'a property" where
  "js_get obj name =
     (case map_of obj name of
        Some v \<Rightarrow> Own v
      | None \<Rightarrow> if name \<in> set object_prototype_names then Inherited else Undefined)"

text \<open>The property key that a value of \<open>selectedManifest\<close> is converted to.\<close>

definition property_key :: "string option \<Rightarrow> string" where
  "property_key name = (case name of None \<Rightarrow> ''null'' | Some n \<Rightarrow> n)"

text \<open>
  A registered source. An unset \<open>cdnBase\<close>, \<open>localBase\<close> or \<open>manifest\<close> is the empty
  string, which JavaScript treats as false. The service worker has no \<open>localBase\<close>.
\<close>

record source =
  pathPrefix :: string
  cdnBase :: string
  localBase :: string
  src_manifest :: string
  progress :: bool

record response =
  status :: int
  headers :: "(string \<times> string) list"
  body :: "bytes option"

section \<open>Range reads\<close>

record part =
  part_file :: string
  subStart :: int
  subEnd :: int
  shardSize :: int

text \<open>
  The first loop of \<open>respondRange\<close> and \<open>_respondRange\<close>: a shard that ends before
  \<open>start\<close> is skipped (\<open>continue\<close>), the first shard that begins after \<open>end\<close> stops the
  loop (\<open>break\<close>), every other shard contributes one part.
\<close>

fun range_parts :: "int \<Rightarrow> int \<Rightarrow> shard list \<Rightarrow> part list" where
  "range_parts start stop [] = []"
| "range_parts start stop (sh # rest) =
     (let sEnd = shard_offset sh + shard_size sh - 1 in
      if sEnd < start then range_parts start stop rest
      else if shard_offset sh > stop then []
      else \<lparr>part_file = shard_file sh,
            subStart = max start (shard_offset sh) - shard_offset sh,
            subEnd = min stop sEnd - shard_offset sh,
            shardSize = shard_size sh\<rparr> # range_parts start stop rest)"

text \<open>The response to an unsatisfiable range, built at two places of each variant.\<close>

definition range_not_satisfiable :: "file_entry \<Rightarrow> response" where
  "range_not_satisfiable entry =
     \<lparr>status = 416,
      headers = [(''Content-Range'', ''bytes */'' @ string_of_int (entry_size entry))],
      body = None\<rparr>"

subsection \<open>The Node resolver: \<open>_readLocal\<close>, \<open>_fetchShardBuf\<close>, \<open>_respondRange\<close>, \<open>_respondFull\<close>\<close>

text \<open>
  The file system is a map from paths to contents. What the resolver cannot decide is an
  oracle of the environment: the outcome of the \<open>i\<close>-th download attempt of a URL, and
  whether a write to a path succeeds. \<open>path.join(base, name)\<close> is \<open>base/name\<close>, and the
  hashed path of \<open>_shardCachePath\<close> is a function of the URL.
\<close>

type_synonym filesystem = "string \<rightharpoonup> bytes"

datatype fetch_result = NetworkError | HttpResponse int bytes

definition http_ok :: "int \<Rightarrow> bool" where
  "http_ok st = (200 \<le> st \<and> st \<le> 299)"

record node_env =
  node_fetch :: "string \<Rightarrow> nat \<Rightarrow> fetch_result"
  fs_write_ok :: "string \<Rightarrow> bool"
  shardCachePath :: "string \<Rightarrow> string"
  retries :: nat

definition path_join :: "string \<Rightarrow> string \<Rightarrow> string" where
  "path_join base name = base @ ''/'' @ name"

definition node_readLocal :: "string \<Rightarrow> string \<Rightarrow> filesystem \<Rightarrow> error + bytes" where
  "node_readLocal base filename fs =
     (case fs (path_join base filename) of
        None \<Rightarrow> Inl (LocalFileNotFound (path_join base filename))
      | Some buf \<Rightarrow> Inr buf)"

text \<open>
  The retry loop of \<open>_fetchShardBuf\<close>, with \<open>i\<close> the loop counter and \<open>k\<close> the attempts
  left. The download, the status check and the two file-system calls that write the
  cache file stand in one \<open>try\<close> block: whichever throws, the \<open>catch\<close> stores the error in
  \<open>lastErr\<close> and the loop goes on; after the last attempt \<open>lastErr\<close> is thrown. The pauses
  between attempts are not modelled.
\<close>

fun fetch_attempts :: "node_env \<Rightarrow> string \<Rightarrow> nat \<Rightarrow> nat \<Rightarrow> error option \<Rightarrow> filesystem
    \<Rightarrow> (error + bytes) \<times> filesystem" where
  "fetch_attempts env url i 0 lastErr fs =
     (Inl (case lastErr of None \<Rightarrow> ThrownUndefined | Some e \<Rightarrow> e), fs)"
| "fetch_attempts env url i (Suc k) lastErr fs =
     (case node_fetch env url i of
        NetworkError \<Rightarrow> fetch_attempts env url (i + 1) k (Some NetworkFailure) fs
      | HttpResponse st buf \<Rightarrow>
          if \<not> http_ok st then fetch_attempts env url (i + 1) k (Some (HttpError st url)) fs
          else if fs_write_ok env (shardCachePath env url)
          then (Inr buf, fs(shardCachePath env url \<mapsto> buf))
          else fetch_attempts env url (i + 1) k (Some CacheWriteError) fs)"

definition node_fetchShardBuf :: "node_env \<Rightarrow> string \<Rightarrow> filesystem \<Rightarrow> (error + bytes) \<times> filesystem" where
  "node_fetchShardBuf env url fs =
     (case fs (shardCachePath env url) of
        Some buf \<Rightarrow> (Inr buf, fs)
      | None \<Rightarrow> fetch_attempts env url 0 (retries env) None fs)"

text \<open>
  \<open>source.localBase ? this._readLocal(...) : await this._fetchShardBuf(...)\<close>, the read
  of one whole shard file that both response builders share.
\<close>

definition node_read_shard :: "node_env \<Rightarrow> source \<Rightarrow> string \<Rightarrow> filesystem \<Rightarrow> (error + bytes) \<times> filesystem" where
  "node_read_shard env src name fs =
     (if localBase src \<noteq> [] then (node_readLocal (localBase src) name fs, fs)
      else node_fetchShardBuf env (cdnBase src @ ''/'' @ name) fs)"

definition node_read_part :: "node_env \<Rightarrow> source \<Rightarrow> part \<Rightarrow> filesystem \<Rightarrow> (error + bytes) \<times> filesystem" where
  "node_read_part env src p fs =
     (case node_read_shard env src (part_file p) fs of
        (Inl e, fs') \<Rightarrow> (Inl e, fs')
      | (Inr full, fs') \<Rightarrow>
          (Inr (if subStart p = 0 \<and> subEnd p = shardSize p - 1 then full
                else js_slice full (subStart p) (subEnd p + 1)), fs'))"

text \<open>
  \<open>_respondRange(entry, source, start, end, relPath)\<close>. Iterating the \<open>shards\<close> of an
  unsharded entry (\<open>null\<close>) throws. The call of \<open>_recordProgress\<close> before the 206
  response is built changes the progress state only (modelled below) and is left out
  here.
\<close>

definition node_respondRange :: "node_env \<Rightarrow> file_entry \<Rightarrow> source \<Rightarrow> int \<Rightarrow> int \<Rightarrow> filesystem
    \<Rightarrow> (error + response) \<times> filesystem" where
  "node_respondRange env entry src start end0 fs =
     (let stop = min end0 (entry_size entry - 1) in
      if start > stop \<or> start \<ge> entry_size entry then (Inr (range_not_satisfiable entry), fs)
      else
        (case shards entry of
           None \<Rightarrow> (Inl NotIterable, fs)
         | Some shs \<Rightarrow>
             (let parts = range_parts start stop shs in
              if parts = [] then (Inr (range_not_satisfiable entry), fs)
              else
                (case collect (node_read_part env src) parts fs of
                   (Inl e, fs') \<Rightarrow> (Inl e, fs')
                 | (Inr buffers, fs') \<Rightarrow>
                     (Inr \<lparr>status = 206,
                           headers =
                             [(''Content-Type'', ''application/octet-stream''),
                              (''Content-Range'',
                                 ''bytes '' @ string_of_int start @ ''-'' @ string_of_int stop
                                   @ ''/'' @ string_of_int (entry_size entry)),
                              (''Content-Length'', string_of_int (stop - start + 1)),
                              (''Accept-Ranges'', ''bytes''),
                              (''X-Model-Resolver'', ''range'')],
                           body = Some (concat buffers)\<rparr>, fs')))))"

definition node_respondFull :: "node_env \<Rightarrow> file_entry \<Rightarrow> source \<Rightarrow> filesystem
    \<Rightarrow> (error + response) \<times> filesystem" where
  "node_respondFull env entry src fs =
     (case shards entry of
        None \<Rightarrow> (Inl NotIterable, fs)
      | Some shs \<Rightarrow>
          (case collect (\<lambda>sh. node_read_shard env src (shard_file sh)) shs fs of
             (Inl e, fs') \<Rightarrow> (Inl e, fs')
           | (Inr buffers, fs') \<Rightarrow>
               (Inr \<lparr>status = 200,
                     headers =
                       [(''Content-Type'', ''application/octet-stream''),
                        (''Content-Length'', string_of_int (entry_size entry)),
                        (''Accept-Ranges'', ''bytes''),
                        (''X-Model-Resolver'', ''reassembled'')],
                     body = Some (concat buffers)\<rparr>, fs')))"


subsection \<open>The service worker: \<open>fetchShard\<close>, \<open>fetchShardSlice\<close>, \<open>respondRange\<close>, \<open>respondFull\<close>\<close>

text \<open>
  Cache Storage is a map from URLs to bodies. The environment decides what a request
  returns (\<open>sw_fetch url None\<close> for a plain request, \<open>sw_fetch url (Some (a, b))\<close> for one
  with the header \<open>Range: bytes=a-b\<close>) and whether reading and writing Cache Storage
  work or throw.

  This subsection describes one call that runs to its end with no other call in flight:
  the in-flight map is then empty when step 2 of \<open>fetchShard\<close> looks at it, and step 3
  has removed its own entry when the call returns. The interleaving of several calls is
  the subject of the section on deduplication below.
\<close>

type_synonym cache_storage = "string \<rightharpoonup> bytes"

record sw_env =
  sw_fetch :: "string \<Rightarrow> (int \<times> int) option \<Rightarrow> fetch_result"
  cache_read_ok :: bool
  cache_write_ok :: bool

definition cache_match :: "sw_env \<Rightarrow> cache_storage \<Rightarrow> string \<Rightarrow> bytes option" where
  "cache_match env c url = (if cache_read_ok env then c url else None)"

definition cache_put :: "sw_env \<Rightarrow> cache_storage \<Rightarrow> string \<Rightarrow> bytes \<Rightarrow> cache_storage" where
  "cache_put env c url buf = (if cache_write_ok env then c(url \<mapsto> buf) else c)"

definition fetchShard :: "sw_env \<Rightarrow> string \<Rightarrow> source \<Rightarrow> cache_storage \<Rightarrow> (error + bytes) \<times> cache_storage" where
  "fetchShard env file src c =
     (let url = cdnBase src @ ''/'' @ file in
      case cache_match env c url of
        Some hit \<Rightarrow> (Inr hit, c)
      | None \<Rightarrow>
          (case sw_fetch env url None of
             NetworkError \<Rightarrow> (Inl NetworkFailure, c)
           | HttpResponse st buf \<Rightarrow>
               if \<not> http_ok st then (Inl (HttpError st url), c)
               else (Inr buf, cache_put env c url buf)))"

definition fetchShardSlice :: "sw_env \<Rightarrow> string \<Rightarrow> source \<Rightarrow> int \<Rightarrow> int \<Rightarrow> cache_storage
    \<Rightarrow> (error + bytes) \<times> cache_storage" where
  "fetchShardSlice env file src sub0 sub1 c =
     (let url = cdnBase src @ ''/'' @ file;
          fallback = (case fetchShard env file src c of
                        (Inl e, c') \<Rightarrow> (Inl e, c')
                      | (Inr full, c') \<Rightarrow> (Inr (js_slice full sub0 (sub1 + 1)), c'))
      in case cache_match env c url of
           Some full \<Rightarrow> (Inr (js_slice full sub0 (sub1 + 1)), c)
         | None \<Rightarrow>
             (case sw_fetch env url (Some (sub0, sub1)) of
                NetworkError \<Rightarrow> fallback
              | HttpResponse st buf \<Rightarrow>
                  if st = 206 then (Inr buf, c)
                  else if http_ok st
                  then (Inr (js_slice buf sub0 (sub1 + 1)), cache_put env c url buf)
                  else fallback))"

definition sw_read_part :: "sw_env \<Rightarrow> source \<Rightarrow> part \<Rightarrow> cache_storage \<Rightarrow> (error + bytes) \<times> cache_storage" where
  "sw_read_part env src p c =
     (if subStart p = 0 \<and> subEnd p = shardSize p - 1 then fetchShard env (part_file p) src c
      else fetchShardSlice env (part_file p) src (subStart p) (subEnd p) c)"

text \<open>
  \<open>respondRange(entry, source, start, end, relPath)\<close>; the body of the 206 response is
  the \<open>Blob\<close> of the buffers, their concatenation. \<open>recordProgress\<close> and
  \<open>scheduleProgress\<close>, called before the response is built, act on the progress state
  only and are modelled with it.
\<close>

definition respondRange :: "sw_env \<Rightarrow> file_entry \<Rightarrow> source \<Rightarrow> int \<Rightarrow> int \<Rightarrow> cache_storage
    \<Rightarrow> (error + response) \<times> cache_storage" where
  "respondRange env entry src start end0 c =
     (let stop = min end0 (entry_size entry - 1) in
      if start > stop \<or> start \<ge> entry_size entry then (Inr (range_not_satisfiable entry), c)
      else
        (case shards entry of
           None \<Rightarrow> (Inl NotIterable, c)
         | Some shs \<Rightarrow>
             (let parts = range_parts start stop shs in
              if parts = [] then (Inr (range_not_satisfiable entry), c)
              else
                (case collect (sw_read_part env src) parts c of
                   (Inl e, c') \<Rightarrow> (Inl e, c')
                 | (Inr buffers, c') \<Rightarrow>
                     (Inr \<lparr>status = 206,
                           headers =
                             [(''Content-Type'', ''application/octet-stream''),
                              (''Content-Range'',
                                 ''bytes '' @ string_of_int start @ ''-'' @ string_of_int stop
                                   @ ''/'' @ string_of_int (entry_size entry)),
                              (''Content-Length'', string_of_int (stop - start + 1)),
                              (''Accept-Ranges'', ''bytes''),
                              (''X-Model-SW'', ''range'')],
                           body = Some (concat buffers)\<rparr>, c')))))"

text \<open>
  \<open>respondFull\<close> answers with a stream that enqueues the shards in listed order; the
  body below is what a reader of the whole stream receives, and \<open>Inl\<close> stands for a
  stream that ends in an error.
\<close>

definition respondFull :: "sw_env \<Rightarrow> file_entry \<Rightarrow> source \<Rightarrow> cache_storage
    \<Rightarrow> (error + response) \<times> cache_storage" where
  "respondFull env entry src c =
     (case shards entry of
        None \<Rightarrow> (Inl NotIterable, c)
      | Some shs \<Rightarrow>
          (case collect (\<lambda>sh. fetchShard env (shard_file sh) src) shs c of
             (Inl e, c') \<Rightarrow> (Inl e, c')
           | (Inr buffers, c') \<Rightarrow>
               (Inr \<lparr>status = 200,
                     headers =
                       [(''Content-Type'', ''application/octet-stream''),
                        (''Content-Length'', string_of_int (entry_size entry)),
                        (''Accept-Ranges'', ''bytes''),
                        (''X-Model-SW'', ''reassembled'')],
                     body = Some (concat buffers)\<rparr>, c')))"


section \<open>The progress state machine\<close>

datatype mode = Explicit | Adaptive | Fallback

record file_progress =
  fp_size :: int
  fp_loaded :: int

record progress_msg =
  msg_pathPrefix :: string
  msg_file :: string
  fileLoaded :: int
  fileTotal :: int
  modelLoaded :: int
  modelTotal :: int
  percent :: int
  msg_done :: bool
  msg_manifest :: "string option"
  msg_mode :: mode

text \<open>
  The progress state of one source. \<open>files\<close> is a JavaScript \<open>Map\<close> and \<open>activeFiles\<close> a
  \<open>Set\<close>, both kept in insertion order; \<open>Map.set\<close> is \<open>AList.update\<close>. A timer field is
  true while a timeout is pending. The last field is not in the source: it lists the
  messages that \<open>doBroadcast\<close> (in Node, \<open>_recordProgress\<close>) has handed to the subscribers
  of this source, oldest first.

  Every function of the source starts with \<open>progressState.get(pathPrefix)\<close> and returns
  when there is no state; the functions below take the state itself. Where the source
  reads the clock (\<open>performance.now()\<close>), the function takes the time \<open>now\<close>, in
  milliseconds.
\<close>

record progress_state =
  st_mode :: mode
  totalBytes :: int
  loadedBytes :: int
  files :: "(string \<times> file_progress) list"
  activeFiles :: "string list"
  candidates :: "string list"
  selectedManifest :: "string option"
  pendingFetches :: int
  idleTimer :: bool
  finalized :: bool
  lastBroadcast :: int
  broadcastTimer :: bool
  lastFile :: string
  posted :: "progress_msg list"

definition makeProgressState :: "string \<Rightarrow> progress_state" where
  "makeProgressState manifestName =
     \<lparr>st_mode = (if manifestName \<noteq> [] then Explicit else Adaptive),
      totalBytes = 0, loadedBytes = 0,
      files = [], activeFiles = [], candidates = [],
      selectedManifest = (if manifestName \<noteq> [] then Some manifestName else None),
      pendingFetches = 0, idleTimer = False, finalized = False,
      lastBroadcast = 0, broadcastTimer = False, lastFile = [], posted = []\<rparr>"

text \<open>
  \<open>setFilesFromList\<close> (the Node resolver's \<open>_setFiles\<close> has the same body); \<open>set_file\<close>
  is the body of its loop. The paths of the list are keys of \<open>files\<close> or names that no
  object inherits; for an inherited name that is not a key the source stores a size that
  is not a number, which the integer sizes of this model do not represent.

  Called with \<open>undefined\<close> for the list, the function resets the total and clears the
  table, and then its \<open>for ... of\<close> statement throws: \<open>setFilesFromUndefined\<close> gives the
  state it leaves and the exception.
\<close>

definition set_file :: "filemap \<Rightarrow> string \<Rightarrow> progress_state \<Rightarrow> progress_state" where
  "set_file fm vp st =
     (case map_of (fm_files fm) vp of
        None \<Rightarrow> st
      | Some e \<Rightarrow>
          st\<lparr>files := AList.update vp \<lparr>fp_size = entry_size e, fp_loaded = 0\<rparr> (files st),
             totalBytes := totalBytes st + entry_size e\<rparr>)"

definition setFilesFromList :: "progress_state \<Rightarrow> filemap \<Rightarrow> string list \<Rightarrow> progress_state" where
  "setFilesFromList st fm vpList = fold (set_file fm) vpList (st\<lparr>totalBytes := 0, files := []\<rparr>)"

definition setFilesFromUndefined :: "progress_state \<Rightarrow> progress_state \<times> error option" where
  "setFilesFromUndefined st = (st\<lparr>totalBytes := 0, files := []\<rparr>, Some NotIterable)"

text \<open>
  \<open>names.reduce((a, b) => manifests[a].size >= manifests[b].size ? a : b)\<close> on a
  non-empty list of names that are keys of \<open>manifests\<close>.
\<close>

definition size_of_manifest :: "(string \<times> manifest) list \<Rightarrow> string \<Rightarrow> int" where
  "size_of_manifest ms n = (case map_of ms n of Some m \<Rightarrow> manifest_size m | None \<Rightarrow> 0)"

definition largest_manifest :: "(string \<times> manifest) list \<Rightarrow> string list \<Rightarrow> string" where
  "largest_manifest ms names =
     foldl (\<lambda>a b. if size_of_manifest ms a \<ge> size_of_manifest ms b then a else b) (hd names) (tl names)"

definition files_of_manifest :: "(string \<times> manifest) list \<Rightarrow> string \<Rightarrow> string list" where
  "files_of_manifest ms n = (case map_of ms n of Some m \<Rightarrow> manifest_files m | None \<Rightarrow> [])"

text \<open>\<open>filemap.manifests || {}\<close>.\<close>

definition manifests_or_empty :: "filemap \<Rightarrow> (string \<times> manifest) list" where
  "manifests_or_empty fm = (case fm_manifests fm of None \<Rightarrow> [] | Some ms \<Rightarrow> ms)"

text \<open>
  The body of \<open>initProgressFromFilemap\<close>, after the lookups of the source and of its
  state: the state it leaves, and the exception if it throws. In explicit mode the
  manifest is read by the name given at registration; when that read gives an inherited
  value \<open>m\<close>, the condition \<open>if (m)\<close> holds and \<open>m.files\<close> is \<open>undefined\<close>.
\<close>

definition initProgress :: "progress_state \<Rightarrow> filemap \<Rightarrow> progress_state \<times> error option" where
  "initProgress st fm =
     (let manifests = manifests_or_empty fm;
          names = map fst manifests
      in if st_mode st = Explicit then
           (case js_get manifests (property_key (selectedManifest st)) of
              Own m \<Rightarrow> (setFilesFromList st fm (manifest_files m), None)
            | Inherited \<Rightarrow> setFilesFromUndefined st
            | Undefined \<Rightarrow> (setFilesFromList st fm (map fst (fm_files fm)), None))
         else if names \<noteq> [] then
           (let largest = largest_manifest manifests names in
            (setFilesFromList
               (st\<lparr>st_mode := Adaptive, candidates := names, selectedManifest := Some largest\<rparr>)
               fm (files_of_manifest manifests largest), None))
         else (setFilesFromList (st\<lparr>st_mode := Fallback\<rparr>) fm (map fst (fm_files fm)), None))"

text \<open>
  The Node resolver's \<open>_initProgressFromFilemap\<close>: the explicit branch is written with a
  conditional expression, \<open>m ? m.files : Object.keys(filemap.files)\<close>; the rest is the
  same.
\<close>

definition node_initProgress :: "progress_state \<Rightarrow> filemap \<Rightarrow> progress_state \<times> error option" where
  "node_initProgress st fm =
     (let manifests = manifests_or_empty fm;
          names = map fst manifests
      in if st_mode st = Explicit then
           (case (case js_get manifests (property_key (selectedManifest st)) of
                    Own m \<Rightarrow> Some (manifest_files m)
                  | Inherited \<Rightarrow> None
                  | Undefined \<Rightarrow> Some (map fst (fm_files fm))) of
              Some vpList \<Rightarrow> (setFilesFromList st fm vpList, None)
            | None \<Rightarrow> setFilesFromUndefined st)
         else if names \<noteq> [] then
           (let largest = largest_manifest manifests names in
            (setFilesFromList
               (st\<lparr>st_mode := Adaptive, candidates := names, selectedManifest := Some largest\<rparr>)
               fm (files_of_manifest manifests largest), None))
         else (setFilesFromList (st\<lparr>st_mode := Fallback\<rparr>) fm (map fst (fm_files fm)), None))"

text \<open>
  \<open>narrowManifest\<close>, after the lookups of the state and the source; \<open>fmo\<close> is the result
  of \<open>filemaps.get(source.cdnBase)\<close>. When the selection changes, the loaded counts are
  saved, the file table is rebuilt from the new manifest, and \<open>loadedBytes\<close> is summed
  again over the new table, each file taking its saved count if it has one.
\<close>

definition narrowManifest :: "progress_state \<Rightarrow> filemap option \<Rightarrow> string \<Rightarrow> progress_state" where
  "narrowManifest st fmo relPath =
     (if st_mode st \<noteq> Adaptive \<or> finalized st then st
      else
        (case fmo of
           None \<Rightarrow> st
         | Some fm \<Rightarrow>
             (case fm_manifests fm of
                None \<Rightarrow> st
              | Some ms \<Rightarrow>
                  (let remaining = filter (\<lambda>n. relPath \<in> set (files_of_manifest ms n)) (candidates st) in
                   if remaining = [] \<or> length remaining = length (candidates st) then st
                   else
                     (let st1 = st\<lparr>candidates := remaining\<rparr>;
                          largest = largest_manifest ms remaining
                      in if Some largest \<noteq> selectedManifest st1 then
                           (let saved = map (\<lambda>(vp, f). (vp, fp_loaded f)) (files st1);
                                st2 = setFilesFromList (st1\<lparr>selectedManifest := Some largest\<rparr>) fm
                                        (files_of_manifest ms largest);
                                restored = map (\<lambda>(vp, f).
                                     (vp, case map_of saved vp of
                                            None \<Rightarrow> f
                                          | Some old \<Rightarrow> f\<lparr>fp_loaded := min old (fp_size f)\<rparr>))
                                   (files st2)
                            in st2\<lparr>files := restored,
                                   loadedBytes := sum_list (map (\<lambda>(vp, f). fp_loaded f) restored)\<rparr>)
                         else st1)))))"

text \<open>
  \<open>Math.round(loaded / total * 100)\<close> rounds to the nearest integer, halves upwards; on
  exact quotients that is the floor of \<open>(200 * loaded + total) / (2 * total)\<close>. The
  rounding error of the double-precision division and multiplication is not modelled:
  where the exact value is a half-integer the source can round the other way (29 of 200
  gives 14 in the source and 15 here).
\<close>

definition percent_of :: "int \<Rightarrow> int \<Rightarrow> int" where
  "percent_of loaded tot =
     (if tot > 0 then min 100 ((200 * loaded + tot) div (2 * tot)) else 0)"

definition is_done :: "progress_state \<Rightarrow> bool" where
  "is_done st = (finalized st \<or> (loadedBytes st \<ge> totalBytes st \<and> totalBytes st > 0))"

definition doBroadcast :: "string \<Rightarrow> int \<Rightarrow> progress_state \<Rightarrow> progress_state" where
  "doBroadcast pp now st =
     (let f = map_of (files st) (lastFile st);
          msg = \<lparr>msg_pathPrefix = pp,
                 msg_file = lastFile st,
                 fileLoaded = (case f of Some x \<Rightarrow> fp_loaded x | None \<Rightarrow> 0),
                 fileTotal = (case f of Some x \<Rightarrow> fp_size x | None \<Rightarrow> 0),
                 modelLoaded = loadedBytes st,
                 modelTotal = totalBytes st,
                 percent = percent_of (loadedBytes st) (totalBytes st),
                 msg_done = is_done st,
                 msg_manifest = selectedManifest st,
                 msg_mode = st_mode st\<rparr>
      in st\<lparr>lastBroadcast := now, posted := posted st @ [msg]\<rparr>)"

text \<open>
  \<open>finalizeProgress\<close>: the loop over \<open>activeFiles\<close> adds up the sizes of the requested
  files that are in the table and marks each of them fully loaded; \<open>actualTotal ||
  st.loadedBytes\<close> takes the second operand when the sum is zero.
\<close>

definition finalize_files :: "string list \<Rightarrow> int \<times> (string \<times> file_progress) list
    \<Rightarrow> int \<times> (string \<times> file_progress) list" where
  "finalize_files active =
     fold (\<lambda>vp (actualTotal, fs).
             case map_of fs vp of
               None \<Rightarrow> (actualTotal, fs)
             | Some f \<Rightarrow> (actualTotal + fp_size f, AList.update vp (f\<lparr>fp_loaded := fp_size f\<rparr>) fs))
          active"

definition finalizeProgress :: "string \<Rightarrow> int \<Rightarrow> progress_state \<Rightarrow> progress_state" where
  "finalizeProgress pp now st =
     (if finalized st then st
      else
        (let (actualTotal, fs) = finalize_files (activeFiles st) (0, files st);
             tot = (if actualTotal \<noteq> 0 then actualTotal else loadedBytes st)
         in doBroadcast pp now
              (st\<lparr>finalized := True, idleTimer := False, broadcastTimer := False,
                   files := fs, totalBytes := tot, loadedBytes := tot\<rparr>)))"

definition onFetchStart :: "progress_state \<Rightarrow> progress_state" where
  "onFetchStart st = st\<lparr>pendingFetches := pendingFetches st + 1, idleTimer := False\<rparr>"

definition onFetchEnd :: "progress_state \<Rightarrow> progress_state" where
  "onFetchEnd st =
     (let st1 = st\<lparr>pendingFetches := max 0 (pendingFetches st - 1)\<rparr> in
      if pendingFetches st1 = 0 \<and> \<not> finalized st1 \<and> st_mode st1 \<noteq> Explicit
      then st1\<lparr>idleTimer := True\<rparr> else st1)"

text \<open>The callback of the idle timer; a timer that was cleared does not fire.\<close>

definition idleTimeout :: "string \<Rightarrow> int \<Rightarrow> progress_state \<Rightarrow> progress_state" where
  "idleTimeout pp now st =
     (if \<not> idleTimer st then st
      else
        (let st1 = st\<lparr>idleTimer := False\<rparr> in
         if pendingFetches st1 = 0 \<and> \<not> finalized st1 then finalizeProgress pp now st1 else st1))"

definition trackFile :: "string \<Rightarrow> int \<Rightarrow> progress_state \<Rightarrow> progress_state" where
  "trackFile relPath fileSize st =
     (let st1 = st\<lparr>activeFiles :=
                      (if relPath \<in> set (activeFiles st) then activeFiles st
                       else activeFiles st @ [relPath])\<rparr>
      in if map_of (files st1) relPath = None
         then st1\<lparr>files := AList.update relPath \<lparr>fp_size = fileSize, fp_loaded = 0\<rparr> (files st1),
                  totalBytes := totalBytes st1 + fileSize\<rparr>
         else st1)"

definition recordProgress :: "string \<Rightarrow> int \<Rightarrow> progress_state \<Rightarrow> progress_state" where
  "recordProgress relPath nbytes st =
     (case map_of (files st) relPath of
        None \<Rightarrow> st
      | Some f \<Rightarrow>
          (let prev = fp_loaded f;
               f' = f\<lparr>fp_loaded := min (fp_loaded f + nbytes) (fp_size f)\<rparr>;
               delta = fp_loaded f' - prev;
               st1 = st\<lparr>files := AList.update relPath f' (files st)\<rparr>
           in if delta > 0 then st1\<lparr>loadedBytes := loadedBytes st1 + delta, lastFile := relPath\<rparr>
              else st1))"

text \<open>
  The Node resolver's \<open>_recordProgress(source, relPath, bytes)\<close>: the same update,
  guarded by \<open>source.progress\<close>, followed by one message to the callbacks.
\<close>

definition node_recordProgress :: "source \<Rightarrow> string \<Rightarrow> int \<Rightarrow> progress_state \<Rightarrow> progress_state" where
  "node_recordProgress src relPath nbytes st =
     (if \<not> progress src then st
      else
        (case map_of (files st) relPath of
           None \<Rightarrow> st
         | Some f \<Rightarrow>
             (let prev = fp_loaded f;
                  f' = f\<lparr>fp_loaded := min (fp_loaded f + nbytes) (fp_size f)\<rparr>;
                  delta = fp_loaded f' - prev;
                  st1 = st\<lparr>files := AList.update relPath f' (files st)\<rparr>;
                  st2 = (if delta > 0
                         then st1\<lparr>loadedBytes := loadedBytes st1 + delta, lastFile := relPath\<rparr>
                         else st1);
                  msg = \<lparr>msg_pathPrefix = pathPrefix src,
                         msg_file = relPath,
                         fileLoaded = fp_loaded f',
                         fileTotal = fp_size f',
                         modelLoaded = loadedBytes st2,
                         modelTotal = totalBytes st2,
                         percent = percent_of (loadedBytes st2) (totalBytes st2),
                         msg_done = is_done st2,
                         msg_manifest = selectedManifest st2,
                         msg_mode = st_mode st2\<rparr>
              in st2\<lparr>posted := posted st2 @ [msg]\<rparr>)))"

definition PROGRESS_THROTTLE_MS :: int where
  "PROGRESS_THROTTLE_MS = 250"

definition scheduleProgress :: "string \<Rightarrow> int \<Rightarrow> progress_state \<Rightarrow> progress_state" where
  "scheduleProgress pp now st =
     (if is_done st then doBroadcast pp now (st\<lparr>broadcastTimer := False\<rparr>)
      else
        (let elapsed = now - lastBroadcast st in
         if elapsed \<ge> PROGRESS_THROTTLE_MS then doBroadcast pp now st
         else if \<not> broadcastTimer st then st\<lparr>broadcastTimer := True\<rparr>
         else st))"

text \<open>The callback of the broadcast timer.\<close>

definition broadcastTimeout :: "string \<Rightarrow> int \<Rightarrow> progress_state \<Rightarrow> progress_state" where
  "broadcastTimeout pp now st =
     (if \<not> broadcastTimer st then st else doBroadcast pp now (st\<lparr>broadcastTimer := False\<rparr>))"


text \<open>
  What \<open>handleModelFetch\<close>, \<open>respondFull\<close>, \<open>respondRange\<close>, the two timers and the
  message handler do to the progress state of a source, as the events of one source in
  the order in which they run. A request for a file of the filemap narrows, tracks and
  counts the fetch; every shard (or range, or unsharded file) that has been read records
  its bytes and schedules a broadcast; the end of a request counts the fetch down.
\<close>

datatype progress_event =
    RequestStarts string int
  | BytesServed string int int
  | RequestEnds
  | IdleTimerFires int
  | BroadcastTimerFires int
  | CompleteMessage int

fun progress_step :: "string \<Rightarrow> filemap option \<Rightarrow> progress_event \<Rightarrow> progress_state \<Rightarrow> progress_state" where
  "progress_step pp fmo (RequestStarts relPath entrySize) st =
     onFetchStart (trackFile relPath entrySize (narrowManifest st fmo relPath))"
| "progress_step pp fmo (BytesServed relPath nbytes now) st =
     scheduleProgress pp now (recordProgress relPath nbytes st)"
| "progress_step pp fmo RequestEnds st = onFetchEnd st"
| "progress_step pp fmo (IdleTimerFires now) st = idleTimeout pp now st"
| "progress_step pp fmo (BroadcastTimerFires now) st = broadcastTimeout pp now st"
| "progress_step pp fmo (CompleteMessage now) st = finalizeProgress pp now st"

definition progress_run :: "string \<Rightarrow> filemap option \<Rightarrow> progress_event list \<Rightarrow> progress_state \<Rightarrow> progress_state" where
  "progress_run pp fmo evs st = fold (progress_step pp fmo) evs st"

section \<open>Loading the filemap\<close>

text \<open>
  The module state of the service worker. A promise stored in \<open>filemapLoading\<close> is kept
  by the value it resolves to, the document or \<open>null\<close>. A load is one step here: the
  requests that arrive while it is pending are not modelled. What the \<open>try\<close> block
  obtains from the network is an oracle: no response, or a status with the outcome of
  \<open>r.json()\<close>, a document of the filemap schema or nothing when the body does not
  parse. A body that parses to some other value is outside the model.
\<close>

record sw_state =
  sources :: "source list"
  filemaps :: "string \<rightharpoonup> filemap"
  filemapLoading :: "string \<rightharpoonup> filemap option"
  progressState :: "string \<rightharpoonup> progress_state"

datatype filemap_fetch = FilemapNetworkError | FilemapResponse int "filemap option"

text \<open>
  \<open>initProgressFromFilemap\<close> initialises the state of the first registered source with
  the given base, if progress is enabled for it; the second component is the exception
  it throws, if any.
\<close>

definition initProgressFromFilemap :: "string \<Rightarrow> filemap \<Rightarrow> sw_state \<Rightarrow> sw_state \<times> error option" where
  "initProgressFromFilemap base fm s =
     (case find (\<lambda>src. cdnBase src = base) (sources s) of
        None \<Rightarrow> (s, None)
      | Some src \<Rightarrow>
          if \<not> progress src then (s, None)
          else
            (case progressState s (pathPrefix src) of
               None \<Rightarrow> (s, None)
             | Some st \<Rightarrow>
                 (case initProgress st fm of
                    (st', thrown) \<Rightarrow>
                      (s\<lparr>progressState := (progressState s)(pathPrefix src \<mapsto> st')\<rparr>, thrown))))"

text \<open>
  \<open>loadFilemap\<close>. The request, the status check, the parse, the store into \<open>filemaps\<close>
  and the initialisation of the progress state stand in one \<open>try\<close> block; its \<open>catch\<close>
  deletes the promise from \<open>filemapLoading\<close> and returns \<open>null\<close>. When the
  initialisation throws, the document is in \<open>filemaps\<close> already.
\<close>

definition loadFilemap :: "(string \<Rightarrow> filemap_fetch) \<Rightarrow> string \<Rightarrow> sw_state \<Rightarrow> filemap option \<times> sw_state" where
  "loadFilemap fetch_json base s =
     (case filemaps s base of
        Some fm \<Rightarrow> (Some fm, s)
      | None \<Rightarrow>
          (case filemapLoading s base of
             Some settled \<Rightarrow> (settled, s)
           | None \<Rightarrow>
               (case fetch_json (base @ ''/filemap.json'') of
                  FilemapNetworkError \<Rightarrow> (None, s)
                | FilemapResponse st parsed \<Rightarrow>
                    if \<not> http_ok st then (None, s)
                    else
                      (case parsed of
                         None \<Rightarrow> (None, s)
                       | Some data \<Rightarrow>
                           (case initProgressFromFilemap base data (s\<lparr>filemaps := (filemaps s)(base \<mapsto> data)\<rparr>) of
                              (s1, None) \<Rightarrow>
                                (Some data, s1\<lparr>filemapLoading := (filemapLoading s1)(base \<mapsto> Some data)\<rparr>)
                            | (s1, Some err) \<Rightarrow>
                                (None, s1\<lparr>filemapLoading := (filemapLoading s1)(base := None)\<rparr>))))))"

text \<open>
  The Node resolver. \<open>_sourceKey\<close> is \<open>localBase || cdnBase\<close>, and
  \<open>_initProgressFromFilemap\<close> finds the source by that key.
\<close>

definition sourceKey :: "source \<Rightarrow> string" where
  "sourceKey src = (if localBase src \<noteq> [] then localBase src else cdnBase src)"

definition node_initProgressFromFilemap :: "string \<Rightarrow> filemap \<Rightarrow> sw_state \<Rightarrow> sw_state \<times> error option" where
  "node_initProgressFromFilemap key fm s =
     (case find (\<lambda>src. sourceKey src = key) (sources s) of
        None \<Rightarrow> (s, None)
      | Some src \<Rightarrow>
          if \<not> progress src then (s, None)
          else
            (case progressState s (pathPrefix src) of
               None \<Rightarrow> (s, None)
             | Some st \<Rightarrow>
                 (case node_initProgress st fm of
                    (st', thrown) \<Rightarrow>
                      (s\<lparr>progressState := (progressState s)(pathPrefix src \<mapsto> st')\<rparr>, thrown))))"

text \<open>
  The part of the \<open>try\<close> block of \<open>_loadFilemap\<close> that obtains the document: from
  \<open>filemap.json\<close> in the local directory; or from the disk copy; or from the network,
  followed by the write of the disk copy (\<open>mkdirSync\<close>, \<open>writeFileSync\<close>). The parser, the
  printer and the hashed path of the disk copy are parameters. The result is the
  document, or nothing when a step has thrown; the file system; and whether the block
  has awaited the network.
\<close>

record filemap_io =
  json_parse :: "bytes \<Rightarrow> filemap option"
  json_stringify :: "filemap \<Rightarrow> bytes"
  filemapCachePath :: "string \<Rightarrow> string"

definition node_read_filemap :: "node_env \<Rightarrow> filemap_io \<Rightarrow> string \<Rightarrow> bool \<Rightarrow> filesystem
    \<Rightarrow> filemap option \<times> filesystem \<times> bool" where
  "node_read_filemap env io key isLocal fs =
     (if isLocal then
        (case fs (path_join key ''filemap.json'') of
           None \<Rightarrow> (None, fs, False)
         | Some doc \<Rightarrow> (json_parse io doc, fs, False))
      else
        (let cp = filemapCachePath io key in
         case fs cp of
           Some doc \<Rightarrow> (json_parse io doc, fs, False)
         | None \<Rightarrow>
             (case node_fetch env (key @ ''/filemap.json'') 0 of
                NetworkError \<Rightarrow> (None, fs, True)
              | HttpResponse st doc \<Rightarrow>
                  if \<not> http_ok st then (None, fs, True)
                  else
                    (case json_parse io doc of
                       None \<Rightarrow> (None, fs, True)
                     | Some data \<Rightarrow>
                         if fs_write_ok env cp then (Some data, fs(cp \<mapsto> json_stringify io data), True)
                         else (None, fs, True)))))"

text \<open>
  The \<open>catch\<close> block deletes the promise from \<open>_filemapLoading\<close>. The promise is stored
  there when the call of the asynchronous function returns, which is at its first
  \<open>await\<close>, or at the end of its body when it awaits nothing: a block that throws before
  it has awaited anything runs its \<open>catch\<close> before the promise is stored, and the promise
  of \<open>null\<close> stays in the map. Only the request of the network path is awaited.
\<close>

definition node_load_failed :: "string \<Rightarrow> bool \<Rightarrow> sw_state \<Rightarrow> sw_state" where
  "node_load_failed key awaited s =
     s\<lparr>filemapLoading := (if awaited then (filemapLoading s)(key := None)
                            else (filemapLoading s)(key \<mapsto> None))\<rparr>"

definition node_loadFilemap :: "node_env \<Rightarrow> filemap_io \<Rightarrow> string \<Rightarrow> bool \<Rightarrow> sw_state \<Rightarrow> filesystem
    \<Rightarrow> filemap option \<times> sw_state \<times> filesystem" where
  "node_loadFilemap env io key isLocal s fs =
     (case filemaps s key of
        Some fm \<Rightarrow> (Some fm, s, fs)
      | None \<Rightarrow>
          (case filemapLoading s key of
             Some settled \<Rightarrow> (settled, s, fs)
           | None \<Rightarrow>
               (case node_read_filemap env io key isLocal fs of
                  (None, fs1, awaited) \<Rightarrow> (None, node_load_failed key awaited s, fs1)
                | (Some data, fs1, awaited) \<Rightarrow>
                    (case node_initProgressFromFilemap key data (s\<lparr>filemaps := (filemaps s)(key \<mapsto> data)\<rparr>) of
                       (s1, None) \<Rightarrow>
                         (Some data, s1\<lparr>filemapLoading := (filemapLoading s1)(key \<mapsto> Some data)\<rparr>, fs1)
                     | (s1, Some err) \<Rightarrow> (None, node_load_failed key awaited s1, fs1)))))"

section \<open>The packager: byte-split of one deliverable\<close>

text \<open>
  \<open>split -b CHUNK_SIZE -d -a 3 file prefix\<close> cuts the file into consecutive pieces of
  \<open>CHUNK_SIZE\<close> bytes, the last one possibly shorter, and writes them under the names
  \<open>prefix000\<close>, \<open>prefix001\<close>, ...; with three digits it has 1000 names and fails when it
  needs more, which ends the script (\<open>set -e\<close>). The chunk size is at least 1 MiB by the
  check of the arguments, so \<open>split\<close> is never run with a size of zero, for which
  \<open>split_b\<close> gives no pieces.
\<close>

function split_b :: "nat \<Rightarrow> 'a list \<Rightarrow> 'a list list" where
  "split_b n xs = (if n = 0 \<or> xs = [] then [] else take n xs # split_b n (drop n xs))"
  by pat_completeness auto
termination
  by (relation "measure (\<lambda>(n, xs). length xs)") auto

declare split_b.simps [simp del]

definition shard_suffix :: "nat \<Rightarrow> string" where
  "shard_suffix i =
     [''0123456789'' ! (i div 100 mod 10), ''0123456789'' ! (i div 10 mod 10), ''0123456789'' ! (i mod 10)]"

definition split_names :: "string \<Rightarrow> nat \<Rightarrow> string list" where
  "split_names pre k = map (\<lambda>i. pre @ shard_suffix i) [0..<k]"

definition needs_byte_split :: "nat \<Rightarrow> nat \<Rightarrow> bool" where
  "needs_byte_split file_size CHUNK_SIZE = (file_size > CHUNK_SIZE)"

text \<open>The number of shards the script announces before it splits.\<close>

definition shard_count :: "nat \<Rightarrow> nat \<Rightarrow> nat" where
  "shard_count file_size CHUNK_SIZE = (file_size + CHUNK_SIZE - 1) div CHUNK_SIZE"

text \<open>
  The output directory is a list of named files, the names distinct. Writing a file
  creates it or replaces its content. The glob \<open>"$OUTPUT_DIR/${fn}".shard.*\<close> lists every
  file of the directory whose name starts with \<open>fn.shard.\<close>, whichever command wrote it,
  in the order of the names; names are compared character by character, which is the
  order of the shell on names that differ in digits only.
\<close>

type_synonym directory = "(string \<times> bytes) list"

definition write_file :: "string \<Rightarrow> bytes \<Rightarrow> directory \<Rightarrow> directory" where
  "write_file name content dir = AList.update name content dir"

definition matches_prefix :: "string \<Rightarrow> string \<Rightarrow> bool" where
  "matches_prefix pre name = (take (length pre) name = pre)"

definition glob_prefix :: "string \<Rightarrow> directory \<Rightarrow> (string \<times> bytes) list" where
  "glob_prefix pre dir = sort_key fst (filter (\<lambda>f. matches_prefix pre (fst f)) dir)"

text \<open>
  The loop over the files that the glob lists: each record takes the running offset, the
  size and the hash of its file, and the offset advances by the size. The hash program
  is a parameter.
\<close>

fun shard_records :: "(bytes \<Rightarrow> string) \<Rightarrow> int \<Rightarrow> (string \<times> bytes) list \<Rightarrow> shard list" where
  "shard_records sha shard_offset0 [] = []"
| "shard_records sha shard_offset0 ((sfn, piece) # rest) =
     \<lparr>shard_file = sfn, shard_offset = shard_offset0, shard_size = int (length piece),
      shard_sha256 = Some (sha piece)\<rparr>
       # shard_records sha (shard_offset0 + int (length piece)) rest"

text \<open>
  The branch of Phase 4 for a deliverable above the chunk size: \<open>split\<close> writes the
  pieces into the output directory, the deliverable itself is copied beside them when
  \<open>keep\<close> holds (\<open>$KEEP_INTERMEDIATES\<close> and a GGUF source), and the shard list is built
  from the glob. When the glob matches nothing the pattern itself is taken for a file
  name and \<open>get_size\<close> fails, which ends the script.
\<close>

datatype pack_error = SuffixesExhausted | NoShardFile

definition byte_split :: "(bytes \<Rightarrow> string) \<Rightarrow> nat \<Rightarrow> bool \<Rightarrow> string \<Rightarrow> bytes \<Rightarrow> directory
    \<Rightarrow> pack_error + shard list \<times> directory" where
  "byte_split sha CHUNK_SIZE keep fn content dir =
     (let pieces = split_b CHUNK_SIZE content;
          pre = fn @ ''.shard.''
      in if length pieces > 1000 then Inl SuffixesExhausted
         else
           (let dir1 = fold (\<lambda>(name, piece). write_file name piece)
                         (zip (split_names pre (length pieces)) pieces) dir;
                dir2 = (if keep then write_file fn content dir1 else dir1);
                listed = glob_prefix pre dir2
            in if listed = [] then Inl NoShardFile
               else Inr (shard_records sha 0 listed, dir2)))"

text \<open>
  The filemap entry that Phase 4 writes for a deliverable that is not deduplicated
  (\<open>skip = no\<close>): a shard list for a file above the chunk size; otherwise the file is
  copied under its flat name and the entry names that file. \<open>phase4\<close> is the loop over
  the deliverables, each with its virtual path, its flat name (the base name of the file,
  whatever its directory), its GGUF source (empty when it has none) and its content; the
  deliverables that the analysis marked as duplicates of an existing package are left
  out.
\<close>

definition phase4_entry :: "(bytes \<Rightarrow> string) \<Rightarrow> nat \<Rightarrow> bool \<Rightarrow> string \<Rightarrow> bytes \<Rightarrow> directory
    \<Rightarrow> pack_error + file_entry \<times> directory" where
  "phase4_entry sha CHUNK_SIZE keep fn content dir =
     (if needs_byte_split (length content) CHUNK_SIZE then
        (case byte_split sha CHUNK_SIZE keep fn content dir of
           Inl e \<Rightarrow> Inl e
         | Inr (shs, dir1) \<Rightarrow>
             Inr (\<lparr>entry_size = int (length content), entry_sha256 = Some (sha content),
                   cdn_file = None, shards = Some shs\<rparr>, dir1))
      else
        Inr (\<lparr>entry_size = int (length content), entry_sha256 = Some (sha content),
              cdn_file = Some fn, shards = None\<rparr>, write_file fn content dir))"

record deliverable =
  deliv_vp :: string
  deliv_flat :: string
  deliv_src :: string
  deliv_content :: bytes

fun phase4 :: "(bytes \<Rightarrow> string) \<Rightarrow> nat \<Rightarrow> bool \<Rightarrow> deliverable list \<Rightarrow> directory
    \<Rightarrow> pack_error + (string \<times> file_entry) list \<times> directory" where
  "phase4 sha CHUNK_SIZE KEEP_INTERMEDIATES [] dir = Inr ([], dir)"
| "phase4 sha CHUNK_SIZE KEEP_INTERMEDIATES (d # rest) dir =
     (case phase4_entry sha CHUNK_SIZE (KEEP_INTERMEDIATES \<and> deliv_src d \<noteq> [])
             (deliv_flat d) (deliv_content d) dir of
        Inl e \<Rightarrow> Inl e
      | Inr (entry, dir1) \<Rightarrow>
          (case phase4 sha CHUNK_SIZE KEEP_INTERMEDIATES rest dir1 of
             Inl e \<Rightarrow> Inl e
           | Inr (entries, dir2) \<Rightarrow> Inr ((deliv_vp d, entry) # entries, dir2)))"


section \<open>Deduplication of concurrent shard fetches\<close>

text \<open>
  The service worker runs on one event loop: a call runs without interruption from one
  \<open>await\<close> to the next, and between two such segments any other call may run. The
  state below holds what the calls share (Cache Storage and \<open>shardInflight\<close>), the
  promises created by step 3 of \<open>fetchShard\<close>, and the point at which every call is
  suspended. A promise is the \<open>async\<close> block of step 3: it waits for the network
  (\<open>fetch\<close> and \<open>arrayBuffer\<close>), then for the write to Cache Storage, then it is settled.

  A call of \<open>fetchShard\<close> waits for the cache lookup; when the lookup misses it either
  joins the promise found in \<open>shardInflight\<close> or, in the same segment, starts the request
  and stores its promise; the owner removes the entry in its \<open>finally\<close> block when the
  promise has settled. A call of \<open>fetchShardSlice\<close> waits for the cache lookup, then for
  its own \<open>Range\<close> request, and falls back to \<open>fetchShard\<close> when that request yields
  neither 206 nor a full body; the pair of indices it carries is the slice it still has
  to take from the result.
\<close>

datatype promise = Fetching string | Caching string bytes | Settled "error + bytes"

datatype task =
    AwaitCache string "(int \<times> int) option"
  | Joined nat "(int \<times> int) option"
  | Owner nat string "(int \<times> int) option"
  | SliceAwaitCache string int int
  | SliceFetching string int int
  | Returned "error + bytes"

record dedup_state =
  d_cache :: cache_storage
  shardInflight :: "string \<rightharpoonup> nat"
  promises :: "promise list"
  tasks :: "task list"

datatype dedup_event =
    CallFetchShard string
  | CallFetchShardSlice string int int
  | CacheAnswers nat bool
  | NetworkAnswers nat fetch_result
  | CacheWritten nat bool
  | PromiseSettles nat
  | RangeAnswers nat fetch_result bool

definition after_slice :: "(int \<times> int) option \<Rightarrow> error + bytes \<Rightarrow> error + bytes" where
  "after_slice k r =
     (case r of
        Inl e \<Rightarrow> Inl e
      | Inr buf \<Rightarrow> (case k of None \<Rightarrow> Inr buf | Some (a, b) \<Rightarrow> Inr (js_slice buf a (b + 1))))"

text \<open>Steps 2 and 3 of \<open>fetchShard\<close>, run by task \<open>t\<close> in one segment after a cache miss.\<close>

definition join_or_start :: "nat \<Rightarrow> string \<Rightarrow> (int \<times> int) option \<Rightarrow> dedup_state \<Rightarrow> dedup_state" where
  "join_or_start t url k s =
     (case shardInflight s url of
        Some p \<Rightarrow> s\<lparr>tasks := (tasks s)[t := Joined p k]\<rparr>
      | None \<Rightarrow>
          s\<lparr>promises := promises s @ [Fetching url],
            shardInflight := (shardInflight s)(url \<mapsto> length (promises s)),
            tasks := (tasks s)[t := Owner (length (promises s)) url k]\<rparr>)"

text \<open>
  One segment of one call. An event that does not fit the state of the task or promise
  it names (a task that is not waiting for it, an index out of range) changes nothing.
  \<open>CacheAnswers t ok\<close>: the cache lookup of task \<open>t\<close> ends, with \<open>ok\<close> false when Cache
  Storage threw. \<open>NetworkAnswers p r\<close>: the request of promise \<open>p\<close> ends with \<open>r\<close>.
  \<open>CacheWritten p ok\<close>: the cache write of promise \<open>p\<close> ends. \<open>PromiseSettles t\<close>: task
  \<open>t\<close> resumes from its \<open>await\<close> of a settled promise. \<open>RangeAnswers t r ok\<close>: the
  \<open>Range\<close> request of task \<open>t\<close> ends with \<open>r\<close>, and \<open>ok\<close> is false when the cache write
  that follows a full body threw.
\<close>

fun dedup_step :: "dedup_event \<Rightarrow> dedup_state \<Rightarrow> dedup_state" where
  "dedup_step (CallFetchShard url) s = s\<lparr>tasks := tasks s @ [AwaitCache url None]\<rparr>"
| "dedup_step (CallFetchShardSlice url a b) s = s\<lparr>tasks := tasks s @ [SliceAwaitCache url a b]\<rparr>"
| "dedup_step (CacheAnswers t ok) s =
     (if t \<ge> length (tasks s) then s
      else
        (case tasks s ! t of
           AwaitCache url k \<Rightarrow>
             (case (if ok then d_cache s url else None) of
                Some hit \<Rightarrow> s\<lparr>tasks := (tasks s)[t := Returned (after_slice k (Inr hit))]\<rparr>
              | None \<Rightarrow> join_or_start t url k s)
         | SliceAwaitCache url a b \<Rightarrow>
             (case (if ok then d_cache s url else None) of
                Some full \<Rightarrow> s\<lparr>tasks := (tasks s)[t := Returned (Inr (js_slice full a (b + 1)))]\<rparr>
              | None \<Rightarrow> s\<lparr>tasks := (tasks s)[t := SliceFetching url a b]\<rparr>)
         | _ \<Rightarrow> s))"
| "dedup_step (NetworkAnswers p r) s =
     (if p \<ge> length (promises s) then s
      else
        (case promises s ! p of
           Fetching url \<Rightarrow>
             (case r of
                NetworkError \<Rightarrow> s\<lparr>promises := (promises s)[p := Settled (Inl NetworkFailure)]\<rparr>
              | HttpResponse st buf \<Rightarrow>
                  if \<not> http_ok st
                  then s\<lparr>promises := (promises s)[p := Settled (Inl (HttpError st url))]\<rparr>
                  else s\<lparr>promises := (promises s)[p := Caching url buf]\<rparr>)
         | _ \<Rightarrow> s))"
| "dedup_step (CacheWritten p ok) s =
     (if p \<ge> length (promises s) then s
      else
        (case promises s ! p of
           Caching url buf \<Rightarrow>
             s\<lparr>promises := (promises s)[p := Settled (Inr buf)],
               d_cache := (if ok then (d_cache s)(url \<mapsto> buf) else d_cache s)\<rparr>
         | _ \<Rightarrow> s))"
| "dedup_step (PromiseSettles t) s =
     (if t \<ge> length (tasks s) then s
      else
        (case tasks s ! t of
           Joined p k \<Rightarrow>
             (if p < length (promises s) then
                (case promises s ! p of
                   Settled r \<Rightarrow> s\<lparr>tasks := (tasks s)[t := Returned (after_slice k r)]\<rparr>
                 | _ \<Rightarrow> s)
              else s)
         | Owner p url k \<Rightarrow>
             (if p < length (promises s) then
                (case promises s ! p of
                   Settled r \<Rightarrow>
                     s\<lparr>shardInflight := (shardInflight s)(url := None),
                       tasks := (tasks s)[t := Returned (after_slice k r)]\<rparr>
                 | _ \<Rightarrow> s)
              else s)
         | _ \<Rightarrow> s))"
| "dedup_step (RangeAnswers t r ok) s =
     (if t \<ge> length (tasks s) then s
      else
        (case tasks s ! t of
           SliceFetching url a b \<Rightarrow>
             (case r of
                NetworkError \<Rightarrow> s\<lparr>tasks := (tasks s)[t := AwaitCache url (Some (a, b))]\<rparr>
              | HttpResponse st buf \<Rightarrow>
                  if st = 206 then s\<lparr>tasks := (tasks s)[t := Returned (Inr buf)]\<rparr>
                  else if http_ok st then
                    s\<lparr>tasks := (tasks s)[t := Returned (Inr (js_slice buf a (b + 1)))],
                      d_cache := (if ok then (d_cache s)(url \<mapsto> buf) else d_cache s)\<rparr>
                  else s\<lparr>tasks := (tasks s)[t := AwaitCache url (Some (a, b))]\<rparr>)
         | _ \<Rightarrow> s))"

definition dedup_run :: "dedup_event list \<Rightarrow> dedup_state \<Rightarrow> dedup_state" where
  "dedup_run evs s = fold dedup_step evs s"

definition dedup_init :: "cache_storage \<Rightarrow> dedup_state" where
  "dedup_init c = \<lparr>d_cache = c, shardInflight = Map.empty, promises = [], tasks = []\<rparr>"

text \<open>The requests that are in progress for a URL: whole-shard requests and range requests.\<close>

definition shard_fetches :: "dedup_state \<Rightarrow> string \<Rightarrow> nat" where
  "shard_fetches s url = length (filter (\<lambda>p. p = Fetching url) (promises s))"

definition is_range_fetch :: "string \<Rightarrow> task \<Rightarrow> bool" where
  "is_range_fetch url t = (case t of SliceFetching u a b \<Rightarrow> u = url | _ \<Rightarrow> False)"

definition range_fetches :: "dedup_state \<Rightarrow> string \<Rightarrow> nat" where
  "range_fetches s url = length (filter (is_range_fetch url) (tasks s))"

definition network_fetches :: "dedup_state \<Rightarrow> string \<Rightarrow> nat" where
  "network_fetches s url = shard_fetches s url + range_fetches s url"


section \<open>Predicates of the specification\<close>

text \<open>
  The invariant of a shard list: the first offset is \<open>off\<close> and every further offset is
  the previous offset plus the previous size.
\<close>

fun chain :: "int \<Rightarrow> shard list \<Rightarrow> bool" where
  "chain off [] = True"
| "chain off (sh # rest) = (shard_offset sh = off \<and> chain (off + shard_size sh) rest)"

text \<open>The bytes a part stands for, given the content of every shard file.\<close>

definition part_bytes :: "(string \<Rightarrow> bytes) \<Rightarrow> part \<Rightarrow> bytes" where
  "part_bytes content p =
     (if subStart p = 0 \<and> subEnd p = shardSize p - 1 then content (part_file p)
      else js_slice (content (part_file p)) (subStart p) (subEnd p + 1))"

text \<open>The bytes \<open>start..stop\<close> of a file, read from a suffix of it that begins at \<open>off\<close>.\<close>

definition window :: "int \<Rightarrow> int \<Rightarrow> int \<Rightarrow> 'a list \<Rightarrow> 'a list" where
  "window off start stop xs = drop (nat (start - off)) (take (nat (stop + 1 - off)) xs)"

text \<open>
  A local flat directory holds the shards of an entry: every shard file is there and has
  the size the filemap declares.
\<close>

definition local_shard :: "filesystem \<Rightarrow> source \<Rightarrow> string \<Rightarrow> bytes" where
  "local_shard fs src name = (case fs (path_join (localBase src) name) of Some buf \<Rightarrow> buf | None \<Rightarrow> [])"

definition local_store :: "filesystem \<Rightarrow> source \<Rightarrow> shard list \<Rightarrow> bool" where
  "local_store fs src shs =
     (localBase src \<noteq> [] \<and>
      (\<forall>sh\<in>set shs. \<exists>buf. fs (path_join (localBase src) (shard_file sh)) = Some buf
          \<and> int (length buf) = shard_size sh))"

text \<open>
  A CDN serves the shards of an entry: a plain request for a shard succeeds with its
  content, which has the declared size; a range request may fail, but a 206 answer
  carries exactly the requested bytes and any other successful answer the whole shard.
  Cache Storage agrees with the CDN when every shard it holds is the shard's content.
\<close>

definition range_honest :: "fetch_result \<Rightarrow> bytes \<Rightarrow> int \<Rightarrow> int \<Rightarrow> bool" where
  "range_honest r full a b =
     (case r of
        NetworkError \<Rightarrow> True
      | HttpResponse st buf \<Rightarrow>
          (st = 206 \<longrightarrow> buf = js_slice full a (b + 1)) \<and>
          (st \<noteq> 206 \<and> http_ok st \<longrightarrow> buf = full))"

definition cdn_serves :: "sw_env \<Rightarrow> source \<Rightarrow> (string \<Rightarrow> bytes) \<Rightarrow> shard list \<Rightarrow> bool" where
  "cdn_serves env src content shs =
     (\<forall>sh\<in>set shs.
        int (length (content (shard_file sh))) = shard_size sh \<and>
        (\<exists>st. http_ok st \<and>
           sw_fetch env (cdnBase src @ ''/'' @ shard_file sh) None = HttpResponse st (content (shard_file sh))) \<and>
        (\<forall>a b. range_honest (sw_fetch env (cdnBase src @ ''/'' @ shard_file sh) (Some (a, b)))
                  (content (shard_file sh)) a b))"

definition cache_agrees :: "cache_storage \<Rightarrow> source \<Rightarrow> (string \<Rightarrow> bytes) \<Rightarrow> shard list \<Rightarrow> bool" where
  "cache_agrees c src content shs =
     (\<forall>sh\<in>set shs. \<forall>buf. c (cdnBase src @ ''/'' @ shard_file sh) = Some buf \<longrightarrow> buf = content (shard_file sh))"

text \<open>
  The same for the Node resolver and its cache directory: the first download attempt of
  every shard succeeds with the shard's content, its cache file can be written, and two
  shards of different names have different cache files; a cache file that is there holds
  the content of its shard.
\<close>

definition node_cdn_serves :: "node_env \<Rightarrow> source \<Rightarrow> (string \<Rightarrow> bytes) \<Rightarrow> shard list \<Rightarrow> bool" where
  "node_cdn_serves env src content shs =
     (localBase src = [] \<and> 0 < retries env \<and>
      (\<forall>sh\<in>set shs.
         int (length (content (shard_file sh))) = shard_size sh \<and>
         (\<exists>st. http_ok st \<and>
            node_fetch env (cdnBase src @ ''/'' @ shard_file sh) 0 = HttpResponse st (content (shard_file sh))) \<and>
         fs_write_ok env (shardCachePath env (cdnBase src @ ''/'' @ shard_file sh)) \<and>
         (\<forall>sh'\<in>set shs.
            shardCachePath env (cdnBase src @ ''/'' @ shard_file sh')
              = shardCachePath env (cdnBase src @ ''/'' @ shard_file sh)
            \<longrightarrow> shard_file sh' = shard_file sh)))"

definition node_cache_agrees :: "node_env \<Rightarrow> filesystem \<Rightarrow> source \<Rightarrow> (string \<Rightarrow> bytes) \<Rightarrow> shard list \<Rightarrow> bool" where
  "node_cache_agrees env fs src content shs =
     (\<forall>sh\<in>set shs. \<forall>buf.
        fs (shardCachePath env (cdnBase src @ ''/'' @ shard_file sh)) = Some buf
        \<longrightarrow> buf = content (shard_file sh))"

text \<open>
  The invariant of the file table: no file has more bytes loaded than its size. The
  clamped delta of a report of \<open>n\<close> bytes for a file is what the report adds to
  \<open>loadedBytes\<close>.
\<close>

definition loaded_within_size :: "progress_state \<Rightarrow> bool" where
  "loaded_within_size st = (\<forall>vp f. map_of (files st) vp = Some f \<longrightarrow> fp_loaded f \<le> fp_size f)"

definition clamped_delta :: "file_progress \<Rightarrow> int \<Rightarrow> int" where
  "clamped_delta f n = max 0 (min (fp_loaded f + n) (fp_size f) - fp_loaded f)"

text \<open>The row of the progress table that tracks a file of the filemap, nothing loaded.\<close>

definition tracked_entry :: "string \<times> file_entry \<Rightarrow> string \<times> file_progress" where
  "tracked_entry ve = (fst ve, \<lparr>fp_size = entry_size (snd ve), fp_loaded = 0\<rparr>)"

text \<open>
  The state of a source that tracks every file of the filemap, nothing loaded, in
  explicit mode with the manifest \<open>name\<close> selected.
\<close>

definition tracks_all_files :: "filemap \<Rightarrow> string \<Rightarrow> progress_state option \<Rightarrow> bool" where
  "tracks_all_files fm name state =
     (case state of
        None \<Rightarrow> False
      | Some st \<Rightarrow>
          st_mode st = Explicit \<and> selectedManifest st = Some name
        \<and> files st = map tracked_entry (fm_files fm)
        \<and> totalBytes st = sum_list (map (\<lambda>ve. entry_size (snd ve)) (fm_files fm)))"

text \<open>
  The schema demands that the size of a manifest is the sum of the sizes of its files.
\<close>

definition manifest_consistent :: "filemap \<Rightarrow> manifest \<Rightarrow> bool" where
  "manifest_consistent fm m =
     (manifest_size m =
        sum_list (map (\<lambda>vp. case map_of (fm_files fm) vp of Some e \<Rightarrow> entry_size e | None \<Rightarrow> 0)
                      (manifest_files m)))"

definition filemap_consistent :: "filemap \<Rightarrow> bool" where
  "filemap_consistent fm = list_all (\<lambda>nm. manifest_consistent fm (snd nm)) (manifests_or_empty fm)"

text \<open>
  The invariant of the deduplication: a promise that is still waiting for the network
  or for its cache write is the one registered in \<open>shardInflight\<close> under its URL; the
  promise of every owner that has not resumed is registered under the owner's URL; and
  no promise has two owners.
\<close>

definition is_owner :: "task \<Rightarrow> bool" where
  "is_owner t = (case t of Owner p u k \<Rightarrow> True | _ \<Rightarrow> False)"

definition busy_with :: "promise \<Rightarrow> string \<Rightarrow> bool" where
  "busy_with pr u = (case pr of Fetching u' \<Rightarrow> u' = u | Caching u' b \<Rightarrow> u' = u | Settled r \<Rightarrow> False)"

definition inflight_covers :: "(string \<rightharpoonup> nat) \<Rightarrow> promise list \<Rightarrow> bool" where
  "inflight_covers inflight ps = (\<forall>p<length ps. \<forall>u. busy_with (ps ! p) u \<longrightarrow> inflight u = Some p)"

definition owners_registered :: "(string \<rightharpoonup> nat) \<Rightarrow> promise list \<Rightarrow> task list \<Rightarrow> bool" where
  "owners_registered inflight ps ts =
     (\<forall>t<length ts. \<forall>p u k. ts ! t = Owner p u k \<longrightarrow> inflight u = Some p \<and> p < length ps)"

definition owners_distinct :: "task list \<Rightarrow> bool" where
  "owners_distinct ts =
     (\<forall>t<length ts. \<forall>t'<length ts. \<forall>p u k u' k'.
        ts ! t = Owner p u k \<and> ts ! t' = Owner p u' k' \<longrightarrow> t = t')"

definition dedup_inv :: "dedup_state \<Rightarrow> bool" where
  "dedup_inv s = (inflight_covers (shardInflight s) (promises s)
     \<and> owners_registered (shardInflight s) (promises s) (tasks s)
     \<and> owners_distinct (tasks s))"

section \<open>Example data\<close>

text \<open>
  A file of five bytes in three shards of sizes 2, 2 and 1, once in a local directory
  and once on a CDN that answers range requests with 206. The first Node environment
  cannot write its cache directory, the second can.
\<close>

definition ex_shards :: "shard list" where
  "ex_shards =
     [\<lparr>shard_file = ''a.shard.000'', shard_offset = 0, shard_size = 2, shard_sha256 = None\<rparr>,
      \<lparr>shard_file = ''a.shard.001'', shard_offset = 2, shard_size = 2, shard_sha256 = None\<rparr>,
      \<lparr>shard_file = ''a.shard.002'', shard_offset = 4, shard_size = 1, shard_sha256 = None\<rparr>]"

definition ex_entry :: file_entry where
  "ex_entry = \<lparr>entry_size = 5, entry_sha256 = None, cdn_file = None, shards = Some ex_shards\<rparr>"

definition ex_content :: "string \<Rightarrow> bytes" where
  "ex_content name =
     (if name = ''a.shard.000'' then [1, 2]
      else if name = ''a.shard.001'' then [3, 4]
      else if name = ''a.shard.002'' then [5]
      else [])"

definition ex_local :: source where
  "ex_local = \<lparr>pathPrefix = ''/m/'', cdnBase = [], localBase = ''/pkg'', src_manifest = [], progress = False\<rparr>"

definition ex_fs :: filesystem where
  "ex_fs = [''/pkg/a.shard.000'' \<mapsto> [1, 2], ''/pkg/a.shard.001'' \<mapsto> [3, 4], ''/pkg/a.shard.002'' \<mapsto> [5]]"

definition ex_remote :: source where
  "ex_remote = \<lparr>pathPrefix = ''/m/'', cdnBase = ''https://cdn'', localBase = [], src_manifest = [], progress = False\<rparr>"

definition ex_node_env :: node_env where
  "ex_node_env =
     \<lparr>node_fetch = (\<lambda>url i. HttpResponse 200 (ex_content (drop 12 url))),
      fs_write_ok = (\<lambda>path. False),
      shardCachePath = (\<lambda>url. ''/cache/shards/'' @ drop 12 url),
      retries = 3\<rparr>"

definition ex_sw_env :: sw_env where
  "ex_sw_env =
     \<lparr>sw_fetch = (\<lambda>url r. case r of
                     None \<Rightarrow> HttpResponse 200 (ex_content (drop 12 url))
                   | Some (a, b) \<Rightarrow> HttpResponse 206 (js_slice (ex_content (drop 12 url)) a (b + 1))),
      cache_read_ok = True,
      cache_write_ok = False\<rparr>"

definition ex_node_env_ok :: node_env where
  "ex_node_env_ok = ex_node_env\<lparr>fs_write_ok := (\<lambda>path. True)\<rparr>"

text \<open>A source with progress enabled, and a state that tracks one file of 10 bytes, 8 loaded.\<close>

definition ex_tracked :: source where
  "ex_tracked = \<lparr>pathPrefix = ''/m/'', cdnBase = ''https://cdn'', localBase = [], src_manifest = [], progress = True\<rparr>"

definition ex_progress :: progress_state where
  "ex_progress =
     (makeProgressState [])\<lparr>st_mode := Fallback, totalBytes := 10, loadedBytes := 8,
        files := [(''a.bin'', \<lparr>fp_size = 10, fp_loaded = 8\<rparr>)]\<rparr>"

text \<open>
  A filemap with two files and one manifest, the same filemap with a manifest size that
  disagrees with its files, and the state of a worker after an init message that
  registers one source with progress enabled and no manifest. Then the state after an
  init message that registers one source with the manifest \<open>name\<close>, and the state for two
  sources with the same base, the first asking for the manifest \<open>q4\<close> and the second for
  \<open>q8\<close>. Last, a CDN that answers every request with the filemap \<open>fm\<close>, and a parser
  that reads every text as \<open>fm\<close>.
\<close>

definition ex_filemap :: filemap where
  "ex_filemap =
     \<lparr>fm_version = 5,
      fm_files =
        [(''config.json'', \<lparr>entry_size = 10, entry_sha256 = None, cdn_file = Some ''config.json'', shards = None\<rparr>),
         (''model_q4.onnx'', \<lparr>entry_size = 20, entry_sha256 = None, cdn_file = Some ''model_q4.onnx'', shards = None\<rparr>)],
      fm_manifests = Some [(''q4'', \<lparr>manifest_files = [''config.json'', ''model_q4.onnx''], manifest_size = 30\<rparr>)]\<rparr>"

definition ex_bad_filemap :: filemap where
  "ex_bad_filemap =
     ex_filemap\<lparr>fm_manifests :=
        Some [(''q4'', \<lparr>manifest_files = [''config.json'', ''model_q4.onnx''], manifest_size = 999\<rparr>)]\<rparr>"

definition ex_sw_state :: sw_state where
  "ex_sw_state =
     \<lparr>sources = [ex_tracked], filemaps = Map.empty, filemapLoading = Map.empty,
      progressState = [''/m/'' \<mapsto> makeProgressState []]\<rparr>"

definition ex_explicit :: "string \<Rightarrow> sw_state" where
  "ex_explicit name =
     \<lparr>sources = [ex_tracked\<lparr>src_manifest := name\<rparr>], filemaps = Map.empty, filemapLoading = Map.empty,
      progressState = [''/m/'' \<mapsto> makeProgressState name]\<rparr>"

definition ex_two_sources :: sw_state where
  "ex_two_sources =
     \<lparr>sources = [ex_tracked\<lparr>src_manifest := ''q4''\<rparr>,
                 ex_tracked\<lparr>pathPrefix := ''/n/'', src_manifest := ''q8''\<rparr>],
      filemaps = Map.empty, filemapLoading = Map.empty,
      progressState = [''/m/'' \<mapsto> makeProgressState ''q4'', ''/n/'' \<mapsto> makeProgressState ''q8'']\<rparr>"

definition ex_fetch_json :: "filemap \<Rightarrow> string \<Rightarrow> filemap_fetch" where
  "ex_fetch_json fm url = FilemapResponse 200 (Some fm)"

definition ex_io :: "filemap \<Rightarrow> filemap_io" where
  "ex_io fm =
     \<lparr>json_parse = (\<lambda>doc. Some fm),
      json_stringify = (\<lambda>data. []),
      filemapCachePath = (\<lambda>key. ''/cache/filemaps/0.json'')\<rparr>"

text \<open>
  The packager with a chunk size of 1 MiB on an empty output directory: the shard list
  and the directory after a file \<open>m.bin\<close> of 2 MiB and one byte, and a run over two files
  with that base name, the second of 1 MiB and one byte. The hash program is left
  unevaluated.
\<close>

definition ex_sha :: "bytes \<Rightarrow> string" where
  "ex_sha b = (if b = [1, 2] then ''h12'' else if b = [3, 4] then ''h34'' else if b = [5] then ''h5'' else ''h'')"

definition ex_first_shards :: "shard list" where
  "ex_first_shards =
     [\<lparr>shard_file = ''m.bin.shard.000'', shard_offset = 0, shard_size = 1048576,
       shard_sha256 = Some (ex_sha (replicate 1048576 0))\<rparr>,
      \<lparr>shard_file = ''m.bin.shard.001'', shard_offset = 1048576, shard_size = 1048576,
       shard_sha256 = Some (ex_sha (replicate 1048576 0))\<rparr>,
      \<lparr>shard_file = ''m.bin.shard.002'', shard_offset = 2097152, shard_size = 1,
       shard_sha256 = Some (ex_sha [0])\<rparr>]"

definition ex_first_output :: directory where
  "ex_first_output =
     [(''m.bin.shard.000'', replicate 1048576 0), (''m.bin.shard.001'', replicate 1048576 0),
      (''m.bin.shard.002'', [0])]"

definition ex_first_entry :: file_entry where
  "ex_first_entry =
     \<lparr>entry_size = 2097153, entry_sha256 = Some (ex_sha (replicate 2097153 0)), cdn_file = None,
      shards = Some ex_first_shards\<rparr>"

definition ex_second_entry :: file_entry where
  "ex_second_entry =
     \<lparr>entry_size = 1048577, entry_sha256 = Some (ex_sha (replicate 1048577 1)), cdn_file = None,
      shards = Some
        [\<lparr>shard_file = ''m.bin.shard.000'', shard_offset = 0, shard_size = 1048576,
          shard_sha256 = Some (ex_sha (replicate 1048576 1))\<rparr>,
         \<lparr>shard_file = ''m.bin.shard.001'', shard_offset = 1048576, shard_size = 1,
          shard_sha256 = Some (ex_sha [1])\<rparr>,
         \<lparr>shard_file = ''m.bin.shard.002'', shard_offset = 1048577, shard_size = 1,
          shard_sha256 = Some (ex_sha [0])\<rparr>]\<rparr>"

definition ex_output :: directory where
  "ex_output =
     [(''m.bin.shard.000'', replicate 1048576 1), (''m.bin.shard.001'', [1]), (''m.bin.shard.002'', [0])]"

definition ex_two_inputs :: "deliverable list" where
  "ex_two_inputs =
     [\<lparr>deliv_vp = ''x/m.bin'', deliv_flat = ''m.bin'', deliv_src = [], deliv_content = replicate 2097153 0\<rparr>,
      \<lparr>deliv_vp = ''y/m.bin'', deliv_flat = ''m.bin'', deliv_src = [], deliv_content = replicate 1048577 1\<rparr>]"

definition ex_run :: "pack_error + (string \<times> file_entry) list \<times> directory" where
  "ex_run = phase4 ex_sha 1048576 False ex_two_inputs []"

text \<open>
  A filemap with three manifests: two model variants that share the configuration and
  the tokenizer, and a vision model; the smaller variant is stored in two shards of 20
  and 158 bytes. The adaptive state after its load; the state after
  the tokenizer and the vision model have been fetched; and, for the smaller filemap
  above, the state after one file has been fetched and the idle timer has fired.
\<close>

definition unsharded :: "int \<Rightarrow> string \<Rightarrow> file_entry" where
  "unsharded n name = \<lparr>entry_size = n, entry_sha256 = None, cdn_file = Some name, shards = None\<rparr>"

definition ex_models :: filemap where
  "ex_models =
     \<lparr>fm_version = 5,
      fm_files =
        [(''config.json'', unsharded 10 ''config.json''),
         (''tokenizer.json'', unsharded 12 ''tokenizer.json''),
         (''model_a.onnx'',
            \<lparr>entry_size = 178, entry_sha256 = None, cdn_file = None,
             shards = Some
               [\<lparr>shard_file = ''model_a.onnx.shard.000'', shard_offset = 0, shard_size = 20, shard_sha256 = None\<rparr>,
                \<lparr>shard_file = ''model_a.onnx.shard.001'', shard_offset = 20, shard_size = 158, shard_sha256 = None\<rparr>]\<rparr>),
         (''model_b.onnx'', unsharded 378 ''model_b.onnx''),
         (''vision.onnx'', unsharded 140 ''vision.onnx'')],
      fm_manifests = Some
        [(''a'', \<lparr>manifest_files = [''config.json'', ''tokenizer.json'', ''model_a.onnx''], manifest_size = 200\<rparr>),
         (''b'', \<lparr>manifest_files = [''config.json'', ''tokenizer.json'', ''model_b.onnx''], manifest_size = 400\<rparr>),
         (''vision'', \<lparr>manifest_files = [''config.json'', ''vision.onnx''], manifest_size = 150\<rparr>)]\<rparr>"

definition ex_adaptive :: progress_state where
  "ex_adaptive = fst (initProgress (makeProgressState []) ex_models)"

definition ex_before_narrowing :: progress_state where
  "ex_before_narrowing =
     progress_run ''/m/'' (Some ex_models)
       [RequestStarts ''tokenizer.json'' 12, BytesServed ''tokenizer.json'' 12 1000, RequestEnds,
        RequestStarts ''vision.onnx'' 140, BytesServed ''vision.onnx'' 140 1500, RequestEnds]
       ex_adaptive"

definition ex_finalized :: progress_state where
  "ex_finalized =
     progress_run ''/m/'' (Some ex_filemap)
       [RequestStarts ''config.json'' 10, BytesServed ''config.json'' 10 1000, RequestEnds,
        IdleTimerFires 3000]
       (fst (initProgress (makeProgressState []) ex_filemap))"

text \<open>
  Two callers of \<open>fetchShard\<close> for one shard, the first past its cache miss; and the
  same two callers after the second has missed the cache too and the request has failed.
\<close>

definition ex_url :: string where
  "ex_url = ''https://cdn/a.shard.000''"

definition ex_two_callers :: dedup_state where
  "ex_two_callers =
     dedup_run [CallFetchShard ex_url, CallFetchShard ex_url, CacheAnswers 0 True] (dedup_init Map.empty)"

definition ex_failed_fetch :: dedup_state where
  "ex_failed_fetch =
     dedup_run [CallFetchShard ex_url, CallFetchShard ex_url, CacheAnswers 0 True,
                CacheAnswers 1 True, NetworkAnswers 0 NetworkError] (dedup_init Map.empty)"

section \<open>Range reads return the slice of the full read\<close>

lemma window_append:
  "window off start stop (c @ R) = window off start stop c @ window (off + int (length c)) start stop R"
proof -
  define d where "d = nat (start - off)"
  define k where "k = nat (stop + 1 - off)"
  define n where "n = length c"
  have d': "nat (start - (off + int n)) = d - n" unfolding d_def by linarith
  have k': "nat (stop + 1 - (off + int n)) = k - n" unfolding k_def by linarith
  have "drop (d - min n k) (take (k - n) R) = drop (d - n) (take (k - n) R)"
    by (cases "n \<le> k") (simp_all add: min_def)
  then show ?thesis
    unfolding window_def d_def[symmetric] k_def[symmetric] n_def[symmetric] d' k'
    by (simp add: n_def)
qed

lemma window_skip: "off + int (length c) - 1 < start \<Longrightarrow> window off start stop c = []"
  unfolding window_def by simp

lemma window_break: "off > stop \<Longrightarrow> window off start stop c = []"
  unfolding window_def by simp

lemma window_one:
  assumes "\<not> (off + int (length (content f)) - 1 < start)" "\<not> off > stop"
  shows "part_bytes content \<lparr>part_file = f, subStart = max start off - off,
     subEnd = min stop (off + int (length (content f)) - 1) - off,
     shardSize = int (length (content f))\<rparr> = window off start stop (content f)"
proof -
  define c where "c = content f"
  define n where "n = length c"
  define d where "d = nat (start - off)"
  define k where "k = nat (stop + 1 - off)"
  have sub0: "max start off - off = int d" unfolding d_def by linarith
  have sub1: "min stop (off + int n - 1) - off + 1 = int (min k n)"
    using assms(2) unfolding k_def by linarith
  have dn: "d \<le> n" using assms(1) unfolding d_def n_def c_def by linarith
  have sl: "js_slice c (int d) (int (min k n)) = drop d (take k c)"
    using dn unfolding js_slice_def Let_def n_def
    by (simp add: min_def drop_take nat_diff_distrib' split: if_splits)
  have full: "int d = 0 \<and> min stop (off + int n - 1) - off = int n - 1 \<Longrightarrow> drop d (take k c) = c"
    using sub1 unfolding n_def by simp
  show ?thesis
    unfolding part_bytes_def window_def
    using sl full
    by (simp add: sub0 sub1 c_def[symmetric] n_def[symmetric] d_def[symmetric] k_def[symmetric] del: of_nat_min)
qed

lemma range_parts_concat:
  "chain off shs \<Longrightarrow> (\<forall>sh\<in>set shs. int (length (content (shard_file sh))) = shard_size sh) \<Longrightarrow>
   concat (map (part_bytes content) (range_parts start stop shs))
     = window off start stop (concat (map (\<lambda>sh. content (shard_file sh)) shs))"
proof (induction shs arbitrary: off)
  case Nil
  then show ?case by (simp add: window_def)
next
  case (Cons sh rest)
  let ?c = "content (shard_file sh)"
  have len: "int (length ?c) = shard_size sh" and off: "shard_offset sh = off"
    using Cons.prems by simp_all
  have IH: "concat (map (part_bytes content) (range_parts start stop rest))
     = window (off + int (length ?c)) start stop (concat (map (\<lambda>sh. content (shard_file sh)) rest))"
    using Cons.IH[of "off + shard_size sh"] Cons.prems len by simp
  show ?case
  proof (cases "off + int (length ?c) - 1 < start")
    case True
    then show ?thesis using IH len off
      by (simp add: window_append window_skip)
  next
    case skip: False
    show ?thesis
    proof (cases "off > stop")
      case True
      have "window off start stop (?c @ concat (map (\<lambda>sh. content (shard_file sh)) rest)) = []"
        using True unfolding window_def by simp
      then show ?thesis using True skip len off by simp
    next
      case False
      from window_one[of off content "shard_file sh" start stop, OF skip False]
      show ?thesis using skip False IH len off
        by (simp add: window_append Let_def)
    qed
  qed
qed

lemma window_js_slice:
  "0 \<le> start \<Longrightarrow> start \<le> stop \<Longrightarrow> window 0 start stop xs = js_slice xs start (stop + 1)"
  unfolding window_def js_slice_def Let_def
  by (auto simp: min_def drop_take nat_diff_distrib' split: if_splits)

lemma range_parts_files:
  "part_file ` set (range_parts start stop shs) \<subseteq> shard_file ` set shs"
  by (induction shs) (auto simp: Let_def)

lemma collect_ok:
  assumes "\<And>p w. p \<in> set ps \<Longrightarrow> Inv w \<Longrightarrow> \<exists>w'. rd p w = (Inr (f p), w') \<and> Inv w'"
    and "Inv w"
  shows "\<exists>w'. collect rd ps w = (Inr (map f ps), w') \<and> Inv w'"
  using assms
proof (induction ps arbitrary: w)
  case Nil
  then show ?case by simp
next
  case (Cons p ps)
  from Cons.prems(1)[of p w] Cons.prems(2)
  obtain w1 where 1: "rd p w = (Inr (f p), w1)" "Inv w1" by auto
  have "\<exists>w'. collect rd ps w1 = (Inr (map f ps), w') \<and> Inv w'"
    by (rule Cons.IH) (use Cons.prems(1) 1 in auto)
  then show ?case using 1 by auto
qed

lemma sum_sizes_length:
  "\<forall>sh\<in>set shs. int (length (content (shard_file sh))) = shard_size sh \<Longrightarrow>
   int (length (concat (map (\<lambda>sh. content (shard_file sh)) shs))) = sum_list (map shard_size shs)"
  by (induction shs) auto

lemma js_slice_nonempty:
  "0 \<le> start \<Longrightarrow> start \<le> stop \<Longrightarrow> stop < int (length xs) \<Longrightarrow> js_slice xs start (stop + 1) \<noteq> []"
  unfolding js_slice_def Let_def by (auto simp: min_def)

lemma range_parts_result:
  assumes "chain 0 shs" "\<forall>sh\<in>set shs. int (length (content (shard_file sh))) = shard_size sh"
    "0 \<le> start" "start \<le> stop" "stop < sum_list (map shard_size shs)"
  shows "concat (map (part_bytes content) (range_parts start stop shs))
           = js_slice (concat (map (\<lambda>sh. content (shard_file sh)) shs)) start (stop + 1)"
    and "range_parts start stop shs \<noteq> []"
proof -
  show eq: "concat (map (part_bytes content) (range_parts start stop shs))
           = js_slice (concat (map (\<lambda>sh. content (shard_file sh)) shs)) start (stop + 1)"
    using range_parts_concat[OF assms(1,2)] window_js_slice[OF assms(3,4)] by simp
  have "js_slice (concat (map (\<lambda>sh. content (shard_file sh)) shs)) start (stop + 1) \<noteq> []"
    by (rule js_slice_nonempty[OF assms(3,4)]) (use sum_sizes_length[OF assms(2)] assms(5) in simp)
  with eq show "range_parts start stop shs \<noteq> []" by auto
qed

lemma node_read_shard_local:
  assumes "local_store fs src shs" "name \<in> shard_file ` set shs"
  shows "node_read_shard env src name fs = (Inr (local_shard fs src name), fs)"
  using assms unfolding local_store_def node_read_shard_def node_readLocal_def local_shard_def
  by auto

lemma node_read_part_local:
  assumes "local_store fs src shs" "part_file p \<in> shard_file ` set shs"
  shows "node_read_part env src p fs = (Inr (part_bytes (local_shard fs src) p), fs)"
  unfolding node_read_part_def part_bytes_def
  by (simp add: node_read_shard_local[OF assms])

lemma node_range_local:
  assumes sh: "shards entry = Some shs"
    and ch: "chain 0 shs"
    and sz: "sum_list (map shard_size shs) = entry_size entry"
    and st: "local_store fs src shs"
    and rg: "0 \<le> start" "start \<le> end0" "end0 \<le> entry_size entry - 1"
  shows "\<exists>full r. node_respondFull env entry src fs = (Inr full, fs)
          \<and> body full = Some (concat (map (\<lambda>sh. local_shard fs src (shard_file sh)) shs))
          \<and> node_respondRange env entry src start end0 fs = (Inr r, fs)
          \<and> status r = 206
          \<and> body r = Some (js_slice (concat (map (\<lambda>sh. local_shard fs src (shard_file sh)) shs)) start (end0 + 1))"
proof -
  let ?content = "local_shard fs src"
  have len: "\<forall>sh\<in>set shs. int (length (?content (shard_file sh))) = shard_size sh"
    using st unfolding local_store_def local_shard_def by fastforce
  have full: "collect (\<lambda>sh. node_read_shard env src (shard_file sh)) shs fs
      = (Inr (map (\<lambda>sh. ?content (shard_file sh)) shs), fs)"
    using collect_ok[where Inv = "\<lambda>w. w = fs" and rd = "\<lambda>sh. node_read_shard env src (shard_file sh)"
        and f = "\<lambda>sh. ?content (shard_file sh)" and ps = shs and w = fs]
      node_read_shard_local[OF st] by auto
  have stop: "min end0 (entry_size entry - 1) = end0" using rg by simp
  have parts: "concat (map (part_bytes ?content) (range_parts start end0 shs))
           = js_slice (concat (map (\<lambda>sh. ?content (shard_file sh)) shs)) start (end0 + 1)"
     "range_parts start end0 shs \<noteq> []"
    using range_parts_result[OF ch len rg(1,2)] rg(3) sz by simp_all
  have pf: "p \<in> set (range_parts start end0 shs) \<Longrightarrow> part_file p \<in> shard_file ` set shs" for p
    using range_parts_files[of start end0 shs] by blast
  have rd: "collect (node_read_part env src) (range_parts start end0 shs) fs
      = (Inr (map (part_bytes ?content) (range_parts start end0 shs)), fs)"
    using collect_ok[where Inv = "\<lambda>w. w = fs" and rd = "node_read_part env src"
        and f = "part_bytes ?content" and ps = "range_parts start end0 shs" and w = fs]
      node_read_part_local[OF st pf] by auto
  show ?thesis
    unfolding node_respondFull_def node_respondRange_def Let_def
    using sh full rd parts rg by (simp add: stop)
qed


lemma cache_put_agrees:
  assumes "cache_agrees c src content shs"
  shows "cache_agrees (cache_put env c (cdnBase src @ ''/'' @ name) (content name)) src content shs"
  using assms unfolding cache_agrees_def cache_put_def by auto

lemma fetchShard_served:
  assumes sv: "cdn_serves env src content shs" and ag: "cache_agrees c src content shs"
    and nm: "name \<in> shard_file ` set shs"
  shows "\<exists>c'. fetchShard env name src c = (Inr (content name), c') \<and> cache_agrees c' src content shs"
proof -
  from nm obtain sh where sh: "sh \<in> set shs" "name = shard_file sh" by auto
  let ?url = "cdnBase src @ ''/'' @ name"
  from sv sh obtain st where st: "http_ok st" "sw_fetch env ?url None = HttpResponse st (content name)"
    unfolding cdn_serves_def by blast
  show ?thesis
  proof (cases "cache_match env c ?url")
    case None
    then show ?thesis using st cache_put_agrees[OF ag]
      unfolding fetchShard_def Let_def by simp
  next
    case (Some hit)
    then have "hit = content name" using ag sh
      unfolding cache_agrees_def cache_match_def by (auto split: if_splits)
    then show ?thesis using Some ag unfolding fetchShard_def Let_def by simp
  qed
qed

lemma fetchShardSlice_served:
  assumes sv: "cdn_serves env src content shs" and ag: "cache_agrees c src content shs"
    and nm: "name \<in> shard_file ` set shs"
  shows "\<exists>c'. fetchShardSlice env name src a b c = (Inr (js_slice (content name) a (b + 1)), c')
           \<and> cache_agrees c' src content shs"
proof -
  from nm obtain sh where sh: "sh \<in> set shs" "name = shard_file sh" by auto
  let ?url = "cdnBase src @ ''/'' @ name"
  from fetchShard_served[OF sv ag nm]
  obtain c1 where c1: "fetchShard env name src c = (Inr (content name), c1)" "cache_agrees c1 src content shs"
    by blast
  have hon: "range_honest (sw_fetch env ?url (Some (a, b))) (content name) a b"
    using sv sh unfolding cdn_serves_def by blast
  show ?thesis
  proof (cases "cache_match env c ?url")
    case (Some hit)
    then have "hit = content name" using ag sh
      unfolding cache_agrees_def cache_match_def by (auto split: if_splits)
    then show ?thesis using Some ag unfolding fetchShardSlice_def Let_def by simp
  next
    case None
    show ?thesis
    proof (cases "sw_fetch env ?url (Some (a, b))")
      case NetworkError
      then show ?thesis using None c1 unfolding fetchShardSlice_def Let_def by simp
    next
      case (HttpResponse st buf)
      then show ?thesis using None c1 hon ag cache_put_agrees[OF ag, of env name]
        unfolding fetchShardSlice_def Let_def range_honest_def by auto
    qed
  qed
qed

lemma sw_read_part_served:
  assumes sv: "cdn_serves env src content shs" and ag: "cache_agrees c src content shs"
    and nm: "part_file p \<in> shard_file ` set shs"
  shows "\<exists>c'. sw_read_part env src p c = (Inr (part_bytes content p), c') \<and> cache_agrees c' src content shs"
  unfolding sw_read_part_def part_bytes_def
  using fetchShard_served[OF sv ag nm] fetchShardSlice_served[OF sv ag nm] by auto

lemma sw_range_served:
  assumes sh: "shards entry = Some shs"
    and ch: "chain 0 shs"
    and sz: "sum_list (map shard_size shs) = entry_size entry"
    and sv: "cdn_serves env src content shs" and ag: "cache_agrees c src content shs"
    and rg: "0 \<le> start" "start \<le> end0" "end0 \<le> entry_size entry - 1"
  shows "\<exists>full r c1 c2. respondFull env entry src c = (Inr full, c1)
          \<and> body full = Some (concat (map (\<lambda>sh. content (shard_file sh)) shs))
          \<and> respondRange env entry src start end0 c = (Inr r, c2)
          \<and> status r = 206
          \<and> body r = Some (js_slice (concat (map (\<lambda>sh. content (shard_file sh)) shs)) start (end0 + 1))"
proof -
  have len: "\<forall>sh\<in>set shs. int (length (content (shard_file sh))) = shard_size sh"
    using sv unfolding cdn_serves_def by blast
  obtain c1 where full: "collect (\<lambda>sh. fetchShard env (shard_file sh) src) shs c
      = (Inr (map (\<lambda>sh. content (shard_file sh)) shs), c1)"
    using collect_ok[where Inv = "\<lambda>w. cache_agrees w src content shs"
        and rd = "\<lambda>sh. fetchShard env (shard_file sh) src"
        and f = "\<lambda>sh. content (shard_file sh)" and ps = shs and w = c]
      fetchShard_served[OF sv] ag by blast
  have stop: "min end0 (entry_size entry - 1) = end0" using rg by simp
  have parts: "concat (map (part_bytes content) (range_parts start end0 shs))
           = js_slice (concat (map (\<lambda>sh. content (shard_file sh)) shs)) start (end0 + 1)"
     "range_parts start end0 shs \<noteq> []"
    using range_parts_result[OF ch len rg(1,2)] rg(3) sz by simp_all
  have pf: "p \<in> set (range_parts start end0 shs) \<Longrightarrow> part_file p \<in> shard_file ` set shs" for p
    using range_parts_files[of start end0 shs] by blast
  obtain c2 where rd: "collect (sw_read_part env src) (range_parts start end0 shs) c
      = (Inr (map (part_bytes content) (range_parts start end0 shs)), c2)"
    using collect_ok[where Inv = "\<lambda>w. cache_agrees w src content shs" and rd = "sw_read_part env src"
        and f = "part_bytes content" and ps = "range_parts start end0 shs" and w = c]
      sw_read_part_served[OF sv _ pf] ag by blast
  show ?thesis
    unfolding respondFull_def respondRange_def Let_def
    using sh full rd parts rg by (simp add: stop)
qed


lemma node_read_shard_served:
  assumes sv: "node_cdn_serves env src content shs" and ag: "node_cache_agrees env fs src content shs"
    and nm: "name \<in> shard_file ` set shs"
  shows "\<exists>fs'. node_read_shard env src name fs = (Inr (content name), fs')
           \<and> node_cache_agrees env fs' src content shs"
proof -
  from nm obtain sh where sh: "sh \<in> set shs" "name = shard_file sh" by auto
  let ?url = "cdnBase src @ ''/'' @ name"
  let ?cp = "shardCachePath env ?url"
  have rem: "localBase src = []" using sv unfolding node_cdn_serves_def by simp
  show ?thesis
  proof (cases "fs ?cp")
    case (Some buf)
    then have "buf = content name" using ag sh unfolding node_cache_agrees_def by blast
    then show ?thesis using Some ag rem
      unfolding node_read_shard_def node_fetchShardBuf_def by simp
  next
    case None
    obtain k where k: "retries env = Suc k"
      using sv unfolding node_cdn_serves_def by (cases "retries env") auto
    obtain st where st: "http_ok st" "node_fetch env ?url 0 = HttpResponse st (content name)"
      using sv sh unfolding node_cdn_serves_def by blast
    have w: "fs_write_ok env ?cp" using sv sh unfolding node_cdn_serves_def by blast
    have r: "node_read_shard env src name fs = (Inr (content name), fs(?cp \<mapsto> content name))"
      unfolding node_read_shard_def node_fetchShardBuf_def using rem None k st w by simp
    have "node_cache_agrees env (fs(?cp \<mapsto> content name)) src content shs"
      unfolding node_cache_agrees_def
    proof (intro ballI allI impI)
      fix sh' buf
      assume a: "sh' \<in> set shs"
        "(fs(?cp \<mapsto> content name)) (shardCachePath env (cdnBase src @ ''/'' @ shard_file sh')) = Some buf"
      show "buf = content (shard_file sh')"
      proof (cases "shardCachePath env (cdnBase src @ ''/'' @ shard_file sh') = ?cp")
        case True
        then have "shard_file sh' = name"
          using sv sh a(1) unfolding node_cdn_serves_def by blast
        then show ?thesis using a(2) True by simp
      next
        case False
        then show ?thesis using a ag unfolding node_cache_agrees_def by simp
      qed
    qed
    then show ?thesis using r by blast
  qed
qed

lemma node_read_part_served:
  assumes sv: "node_cdn_serves env src content shs" and ag: "node_cache_agrees env fs src content shs"
    and nm: "part_file p \<in> shard_file ` set shs"
  shows "\<exists>fs'. node_read_part env src p fs = (Inr (part_bytes content p), fs')
           \<and> node_cache_agrees env fs' src content shs"
proof -
  from node_read_shard_served[OF sv ag nm]
  obtain fs' where "node_read_shard env src (part_file p) fs = (Inr (content (part_file p)), fs')"
    "node_cache_agrees env fs' src content shs" by blast
  then show ?thesis unfolding node_read_part_def part_bytes_def by simp
qed

lemma node_range_served:
  assumes sh: "shards entry = Some shs"
    and ch: "chain 0 shs"
    and sz: "sum_list (map shard_size shs) = entry_size entry"
    and sv: "node_cdn_serves env src content shs" and ag: "node_cache_agrees env fs src content shs"
    and rg: "0 \<le> start" "start \<le> end0" "end0 \<le> entry_size entry - 1"
  shows "\<exists>full r fs1 fs2. node_respondFull env entry src fs = (Inr full, fs1)
          \<and> body full = Some (concat (map (\<lambda>sh. content (shard_file sh)) shs))
          \<and> node_respondRange env entry src start end0 fs = (Inr r, fs2)
          \<and> status r = 206
          \<and> body r = Some (js_slice (concat (map (\<lambda>sh. content (shard_file sh)) shs)) start (end0 + 1))"
proof -
  have len: "\<forall>sh\<in>set shs. int (length (content (shard_file sh))) = shard_size sh"
    using sv unfolding node_cdn_serves_def by blast
  obtain fs1 where full: "collect (\<lambda>sh. node_read_shard env src (shard_file sh)) shs fs
      = (Inr (map (\<lambda>sh. content (shard_file sh)) shs), fs1)"
    using collect_ok[where Inv = "\<lambda>w. node_cache_agrees env w src content shs"
        and rd = "\<lambda>sh. node_read_shard env src (shard_file sh)"
        and f = "\<lambda>sh. content (shard_file sh)" and ps = shs and w = fs]
      node_read_shard_served[OF sv] ag by blast
  have stop: "min end0 (entry_size entry - 1) = end0" using rg by simp
  have parts: "concat (map (part_bytes content) (range_parts start end0 shs))
           = js_slice (concat (map (\<lambda>sh. content (shard_file sh)) shs)) start (end0 + 1)"
     "range_parts start end0 shs \<noteq> []"
    using range_parts_result[OF ch len rg(1,2)] rg(3) sz by simp_all
  have pf: "p \<in> set (range_parts start end0 shs) \<Longrightarrow> part_file p \<in> shard_file ` set shs" for p
    using range_parts_files[of start end0 shs] by blast
  obtain fs2 where rd: "collect (node_read_part env src) (range_parts start end0 shs) fs
      = (Inr (map (part_bytes content) (range_parts start end0 shs)), fs2)"
    using collect_ok[where Inv = "\<lambda>w. node_cache_agrees env w src content shs" and rd = "node_read_part env src"
        and f = "part_bytes content" and ps = "range_parts start end0 shs" and w = fs]
      node_read_part_served[OF sv _ pf] ag by blast
  show ?thesis
    unfolding node_respondFull_def node_respondRange_def Let_def
    using sh full rd parts rg by (simp add: stop)
qed

text \<open>
  Claim C1. Let a sharded entry have contiguous offsets from 0 and shard sizes that sum
  to its size, and let \<open>0 \<le> start \<le> end \<le> size - 1\<close>. Read by the Node resolver from a
  local directory that holds the shards, read by the Node resolver from a CDN that
  serves them, and read by the service worker from a CDN that serves them, the range
  read returns status 206 and a body equal to the bytes \<open>start..end\<close> of the
  concatenation of the shard contents in listed order, which is the body of the full
  read of the same entry.
\<close>

theorem range_read_is_slice_of_full_read:
  assumes "shards entry = Some shs"
    and "chain 0 shs"
    and "sum_list (map shard_size shs) = entry_size entry"
    and "0 \<le> start" and "start \<le> end0" and "end0 \<le> entry_size entry - 1"
  shows "(local_store fs lsrc shs \<longrightarrow>
           (\<exists>full r. node_respondFull nenv entry lsrc fs = (Inr full, fs)
              \<and> body full = Some (concat (map (\<lambda>sh. local_shard fs lsrc (shard_file sh)) shs))
              \<and> node_respondRange nenv entry lsrc start end0 fs = (Inr r, fs)
              \<and> status r = 206
              \<and> body r = Some (js_slice (concat (map (\<lambda>sh. local_shard fs lsrc (shard_file sh)) shs))
                                  start (end0 + 1))))
       \<and> (node_cdn_serves nenv src content shs \<and> node_cache_agrees nenv fs src content shs \<longrightarrow>
           (\<exists>full r fs1 fs2. node_respondFull nenv entry src fs = (Inr full, fs1)
              \<and> body full = Some (concat (map (\<lambda>sh. content (shard_file sh)) shs))
              \<and> node_respondRange nenv entry src start end0 fs = (Inr r, fs2)
              \<and> status r = 206
              \<and> body r = Some (js_slice (concat (map (\<lambda>sh. content (shard_file sh)) shs))
                                  start (end0 + 1))))
       \<and> (cdn_serves env src content shs \<and> cache_agrees c src content shs \<longrightarrow>
           (\<exists>full r c1 c2. respondFull env entry src c = (Inr full, c1)
              \<and> body full = Some (concat (map (\<lambda>sh. content (shard_file sh)) shs))
              \<and> respondRange env entry src start end0 c = (Inr r, c2)
              \<and> status r = 206
              \<and> body r = Some (js_slice (concat (map (\<lambda>sh. content (shard_file sh)) shs))
                                  start (end0 + 1))))"
  using node_range_local[OF assms(1-3) _ assms(4-6)] node_range_served[OF assms(1-3) _ _ assms(4-6)]
    sw_range_served[OF assms(1-3) _ _ assms(4-6)]
  by blast

lemma ex_chain: "chain 0 ex_shards"
  by (simp add: ex_shards_def)

lemma ex_local_store: "local_store ex_fs ex_local ex_shards"
  by (simp add: local_store_def ex_fs_def ex_local_def ex_shards_def path_join_def)

lemma ex_cdn_serves: "cdn_serves ex_sw_env ex_remote ex_content ex_shards"
  by (simp add: cdn_serves_def ex_sw_env_def ex_remote_def ex_shards_def ex_content_def
      range_honest_def http_ok_def)

lemma ex_cache_agrees: "cache_agrees Map.empty ex_remote ex_content ex_shards"
  by (simp add: cache_agrees_def)

lemma ex_node_cdn_serves: "node_cdn_serves ex_node_env_ok ex_remote ex_content ex_shards"
  by (simp add: node_cdn_serves_def ex_node_env_ok_def ex_node_env_def ex_remote_def ex_shards_def
      ex_content_def http_ok_def)

lemma ex_node_cache_agrees: "node_cache_agrees ex_node_env_ok Map.empty ex_remote ex_content ex_shards"
  by (simp add: node_cache_agrees_def)

theorem range_read_is_slice_of_full_read_witness:
  "(\<exists>r. node_respondRange ex_node_env ex_entry ex_local 1 3 ex_fs = (Inr r, ex_fs)
        \<and> status r = 206 \<and> body r = Some [2, 3, 4])
   \<and> (\<exists>r fs2. node_respondRange ex_node_env_ok ex_entry ex_remote 1 3 Map.empty = (Inr r, fs2)
        \<and> status r = 206 \<and> body r = Some [2, 3, 4])
   \<and> (\<exists>r c2. respondRange ex_sw_env ex_entry ex_remote 1 3 Map.empty = (Inr r, c2)
        \<and> status r = 206 \<and> body r = Some [2, 3, 4])"
proof -
  have sh: "shards ex_entry = Some ex_shards" by (simp add: ex_entry_def)
  have sz: "sum_list (map shard_size ex_shards) = entry_size ex_entry"
    by (simp add: ex_entry_def ex_shards_def)
  have rg: "(0::int) \<le> 1" "(1::int) \<le> 3" "3 \<le> entry_size ex_entry - 1"
    by (simp_all add: ex_entry_def)
  have l: "concat (map (\<lambda>sh. local_shard ex_fs ex_local (shard_file sh)) ex_shards) = [1, 2, 3, 4, 5]"
    by (simp add: ex_shards_def local_shard_def ex_fs_def ex_local_def path_join_def)
  have r: "concat (map (\<lambda>sh. ex_content (shard_file sh)) ex_shards) = [1, 2, 3, 4, 5]"
    by (simp add: ex_shards_def ex_content_def)
  have sl: "js_slice [1, 2, 3, 4, 5 :: 8 word] 1 (3 + 1) = [2, 3, 4]"
    by (simp add: js_slice_def)
  have a: "\<exists>r. node_respondRange ex_node_env ex_entry ex_local 1 3 ex_fs = (Inr r, ex_fs)
        \<and> status r = 206 \<and> body r = Some [2, 3, 4]"
    using range_read_is_slice_of_full_read[OF sh ex_chain sz rg,
        where fs = ex_fs and lsrc = ex_local and nenv = ex_node_env, THEN conjunct1]
      ex_local_store unfolding l sl by blast
  have b: "\<exists>r fs2. node_respondRange ex_node_env_ok ex_entry ex_remote 1 3 Map.empty = (Inr r, fs2)
        \<and> status r = 206 \<and> body r = Some [2, 3, 4]"
    using range_read_is_slice_of_full_read[OF sh ex_chain sz rg,
        where fs = Map.empty and src = ex_remote and nenv = ex_node_env_ok and content = ex_content,
        THEN conjunct2, THEN conjunct1]
      ex_node_cdn_serves ex_node_cache_agrees unfolding r sl by blast
  have c: "\<exists>r c2. respondRange ex_sw_env ex_entry ex_remote 1 3 Map.empty = (Inr r, c2)
        \<and> status r = 206 \<and> body r = Some [2, 3, 4]"
    using range_read_is_slice_of_full_read[OF sh ex_chain sz rg,
        where env = ex_sw_env and src = ex_remote and content = ex_content and c = Map.empty,
        THEN conjunct2, THEN conjunct2]
      ex_cdn_serves ex_cache_agrees unfolding r sl by blast
  show ?thesis using a b c by blast
qed

text \<open>
  Claim C5. For every entry of size \<open>s\<close>, sharded or not, a range read whose start is
  greater than its end or at least \<open>s\<close> returns status 416 with the single header
  \<open>Content-Range: bytes */s\<close> and no body, and leaves the file system and the cache as
  they were; so do both variants.
\<close>

theorem invalid_range_is_416:
  assumes "start > end0 \<or> start \<ge> entry_size entry"
  shows "node_respondRange nenv entry lsrc start end0 fs = (Inr (range_not_satisfiable entry), fs)
       \<and> respondRange env entry src start end0 c = (Inr (range_not_satisfiable entry), c)
       \<and> status (range_not_satisfiable entry) = 416
       \<and> headers (range_not_satisfiable entry)
            = [(''Content-Range'', ''bytes */'' @ string_of_int (entry_size entry))]
       \<and> body (range_not_satisfiable entry) = None"
  using assms
  unfolding node_respondRange_def respondRange_def range_not_satisfiable_def Let_def
  by auto

lemma string_of_int_5: "string_of_int 5 = ''5''"
  by (simp add: string_of_int_def string_of_nat.simps)

theorem invalid_range_is_416_witness:
  "node_respondRange ex_node_env ex_entry ex_local 5 7 ex_fs
     = (Inr \<lparr>status = 416, headers = [(''Content-Range'', ''bytes */5'')], body = None\<rparr>, ex_fs)
   \<and> respondRange ex_sw_env ex_entry ex_remote 5 7 Map.empty
     = (Inr \<lparr>status = 416, headers = [(''Content-Range'', ''bytes */5'')], body = None\<rparr>, Map.empty)"
proof -
  have h: "(5::int) > 7 \<or> 5 \<ge> entry_size ex_entry" by (simp add: ex_entry_def)
  have r: "range_not_satisfiable ex_entry
      = \<lparr>status = 416, headers = [(''Content-Range'', ''bytes */5'')], body = None\<rparr>"
    by (simp add: range_not_satisfiable_def ex_entry_def string_of_int_5)
  from invalid_range_is_416[OF h, of ex_node_env ex_local ex_fs ex_sw_env ex_remote Map.empty]
  show ?thesis unfolding r by simp
qed

section \<open>Recording progress clamps at the file size\<close>

lemma recordProgress_files:
  "map_of (files (recordProgress rp n st)) =
     (case map_of (files st) rp of
        None \<Rightarrow> map_of (files st)
      | Some f \<Rightarrow> (map_of (files st))(rp \<mapsto> f\<lparr>fp_loaded := min (fp_loaded f + n) (fp_size f)\<rparr>))"
  unfolding recordProgress_def Let_def
  by (auto simp: update_conv' split: option.splits)

lemma recordProgress_loadedBytes:
  "loadedBytes (recordProgress rp n st) =
     (case map_of (files st) rp of
        None \<Rightarrow> loadedBytes st
      | Some f \<Rightarrow> loadedBytes st + clamped_delta f n)"
  unfolding recordProgress_def Let_def clamped_delta_def
  by (auto split: option.splits)

lemma recordProgress_within:
  "loaded_within_size st \<Longrightarrow> loaded_within_size (recordProgress rp n st)"
  unfolding loaded_within_size_def recordProgress_files
  by (auto split: option.splits)

lemma node_recordProgress_files:
  "map_of (files (node_recordProgress src rp n st)) =
     (if \<not> progress src then map_of (files st) else
     (case map_of (files st) rp of
        None \<Rightarrow> map_of (files st)
      | Some f \<Rightarrow> (map_of (files st))(rp \<mapsto> f\<lparr>fp_loaded := min (fp_loaded f + n) (fp_size f)\<rparr>)))"
  unfolding node_recordProgress_def Let_def
  by (auto simp: update_conv' split: option.splits)

lemma node_recordProgress_loadedBytes:
  "loadedBytes (node_recordProgress src rp n st) =
     (if \<not> progress src then loadedBytes st else
     (case map_of (files st) rp of
        None \<Rightarrow> loadedBytes st
      | Some f \<Rightarrow> loadedBytes st + clamped_delta f n))"
  unfolding node_recordProgress_def Let_def clamped_delta_def
  by (auto split: option.splits)

lemma node_recordProgress_within:
  "loaded_within_size st \<Longrightarrow> loaded_within_size (node_recordProgress src rp n st)"
  unfolding loaded_within_size_def node_recordProgress_files
  by (auto split: option.splits)

lemma reports_within:
  "loaded_within_size st \<Longrightarrow> loaded_within_size (fold (\<lambda>(rp, n). recordProgress rp n) reports st)"
  by (induction reports arbitrary: st) (auto simp: recordProgress_within)

lemma node_reports_within:
  "loaded_within_size st \<Longrightarrow> loaded_within_size (fold (\<lambda>(rp, n). node_recordProgress src rp n) reports st)"
  by (induction reports arbitrary: st) (auto simp: node_recordProgress_within)

text \<open>
  Claim C10. Recording progress keeps every tracked file's loaded count within its
  size, for one report and for any sequence of reports, in the service worker and in
  the Node resolver: the count of the reported file becomes the minimum of its size and
  the old count plus the reported bytes, and \<open>loadedBytes\<close> grows by the clamped delta
  only.
\<close>

theorem recordProgress_keeps_loaded_within_size:
  assumes "loaded_within_size st"
  shows "loaded_within_size (fold (\<lambda>(rp, n). recordProgress rp n) reports st)
       \<and> loaded_within_size (fold (\<lambda>(rp, n). node_recordProgress src rp n) reports st)
       \<and> (case map_of (files st) relPath of
             None \<Rightarrow> recordProgress relPath n st = st
           | Some f \<Rightarrow>
               map_of (files (recordProgress relPath n st)) relPath
                 = Some (f\<lparr>fp_loaded := min (fp_loaded f + n) (fp_size f)\<rparr>)
               \<and> loadedBytes (recordProgress relPath n st) = loadedBytes st + clamped_delta f n
               \<and> (progress src \<longrightarrow>
                    map_of (files (node_recordProgress src relPath n st)) relPath
                      = Some (f\<lparr>fp_loaded := min (fp_loaded f + n) (fp_size f)\<rparr>)
                    \<and> loadedBytes (node_recordProgress src relPath n st) = loadedBytes st + clamped_delta f n))"
proof -
  have none: "map_of (files st) relPath = None \<Longrightarrow> recordProgress relPath n st = st"
    unfolding recordProgress_def by simp
  show ?thesis
    using reports_within[OF assms] node_reports_within[OF assms] none
    by (auto simp: recordProgress_files recordProgress_loadedBytes node_recordProgress_files
        node_recordProgress_loadedBytes split: option.splits)
qed

theorem recordProgress_keeps_loaded_within_size_witness:
  "loaded_within_size ex_progress
   \<and> loaded_within_size (fold (\<lambda>(rp, n). recordProgress rp n) [(''a.bin'', 5), (''a.bin'', 5)] ex_progress)
   \<and> map_of (files (recordProgress ''a.bin'' 5 ex_progress)) ''a.bin'' = Some \<lparr>fp_size = 10, fp_loaded = 10\<rparr>
   \<and> loadedBytes (recordProgress ''a.bin'' 5 ex_progress) = 10
   \<and> map_of (files (node_recordProgress ex_tracked ''a.bin'' 5 ex_progress)) ''a.bin''
        = Some \<lparr>fp_size = 10, fp_loaded = 10\<rparr>
   \<and> loadedBytes (node_recordProgress ex_tracked ''a.bin'' 5 ex_progress) = 10"
proof -
  have h: "loaded_within_size ex_progress"
    by (simp add: loaded_within_size_def ex_progress_def)
  have f: "map_of (files ex_progress) ''a.bin'' = Some \<lparr>fp_size = 10, fp_loaded = 8\<rparr>"
    by (simp add: ex_progress_def)
  have p: "progress ex_tracked" by (simp add: ex_tracked_def)
  have l: "loadedBytes ex_progress = 8" by (simp add: ex_progress_def)
  from recordProgress_keeps_loaded_within_size[OF h,
      of "[(''a.bin'', 5), (''a.bin'', 5)]" ex_tracked "''a.bin''" 5]
  show ?thesis using h p
    by (simp add: f l clamped_delta_def)
qed

section \<open>A missing explicit manifest\<close>

lemma update_absent: "k \<notin> fst ` set al \<Longrightarrow> AList.update k v al = al @ [(k, v)]"
  by (induction al) auto

lemma set_file_frame:
  "st_mode (fold (set_file fm) vps st) = st_mode st
   \<and> selectedManifest (fold (set_file fm) vps st) = selectedManifest st"
  by (induction vps arbitrary: st) (auto simp: set_file_def split: option.splits)

lemma setFilesFromList_frame:
  "st_mode (setFilesFromList st fm vps) = st_mode st"
  "selectedManifest (setFilesFromList st fm vps) = selectedManifest st"
  unfolding setFilesFromList_def using set_file_frame[of fm vps] by simp_all

lemma set_file_all:
  assumes "distinct (map fst (pre @ rest))"
    and "fm_files fm = pre @ rest"
    and "files st = map tracked_entry pre"
    and "totalBytes st = sum_list (map (\<lambda>ve. entry_size (snd ve)) pre)"
  shows "files (fold (set_file fm) (map fst rest) st) = map tracked_entry (fm_files fm)
     \<and> totalBytes (fold (set_file fm) (map fst rest) st)
         = sum_list (map (\<lambda>ve. entry_size (snd ve)) (fm_files fm))"
  using assms
proof (induction rest arbitrary: pre st)
  case Nil
  then show ?case by simp
next
  case (Cons ve rest)
  obtain k e where ve: "ve = (k, e)" by (cases ve)
  have dist: "distinct (map fst (fm_files fm))" using Cons.prems(1,2) by simp
  have "(k, e) \<in> set (fm_files fm)" using Cons.prems(2) ve by simp
  then have look: "map_of (fm_files fm) k = Some e"
    using map_of_eq_Some_iff[OF dist] by blast
  have absent: "k \<notin> fst ` set (map tracked_entry pre)"
    using Cons.prems(1) ve by (force simp: tracked_entry_def image_iff)
  let ?st1 = "set_file fm k st"
  have st1: "?st1 = st\<lparr>files := AList.update k \<lparr>fp_size = entry_size e, fp_loaded = 0\<rparr> (files st),
                  totalBytes := totalBytes st + entry_size e\<rparr>"
    unfolding set_file_def using look by simp
  have te: "tracked_entry ve = (k, \<lparr>fp_size = entry_size e, fp_loaded = 0\<rparr>)"
    using ve by (simp add: tracked_entry_def)
  have f1: "files ?st1 = map tracked_entry (pre @ [ve])"
    unfolding st1 by (simp add: Cons.prems(3) update_absent[OF absent] te)
  have t1: "totalBytes ?st1 = sum_list (map (\<lambda>ve. entry_size (snd ve)) (pre @ [ve]))"
    unfolding st1 using Cons.prems(4) ve by simp
  have d1: "distinct (map fst ((pre @ [ve]) @ rest))" using Cons.prems(1) by simp
  have a1: "fm_files fm = (pre @ [ve]) @ rest" using Cons.prems(2) by simp
  from Cons.IH[OF d1 a1 f1 t1] show ?case using ve by simp
qed

lemma setFilesFromList_all:
  assumes "distinct (map fst (fm_files fm))"
  shows "files (setFilesFromList st fm (map fst (fm_files fm))) = map tracked_entry (fm_files fm)"
    and "totalBytes (setFilesFromList st fm (map fst (fm_files fm)))
           = sum_list (map (\<lambda>ve. entry_size (snd ve)) (fm_files fm))"
  unfolding setFilesFromList_def
  using set_file_all[of "[]" "fm_files fm" fm "st\<lparr>totalBytes := 0, files := []\<rparr>"] assms
  by simp_all

lemma initProgress_missing:
  assumes "st_mode st = Explicit" and "selectedManifest st = Some name"
    and "js_get (manifests_or_empty fm) name = Undefined"
  shows "initProgress st fm = (setFilesFromList st fm (map fst (fm_files fm)), None)"
    and "node_initProgress st fm = (setFilesFromList st fm (map fst (fm_files fm)), None)"
  unfolding initProgress_def node_initProgress_def Let_def using assms
  by (simp_all add: property_key_def)

lemma initProgress_throws:
  "snd (initProgress st fm) \<noteq> None \<longleftrightarrow>
     st_mode st = Explicit \<and> js_get (manifests_or_empty fm) (property_key (selectedManifest st)) = Inherited"
  "snd (node_initProgress st fm) \<noteq> None \<longleftrightarrow>
     st_mode st = Explicit \<and> js_get (manifests_or_empty fm) (property_key (selectedManifest st)) = Inherited"
  unfolding initProgress_def node_initProgress_def Let_def setFilesFromUndefined_def
  by (simp_all split: property.splits)

lemma initProgressFromFilemap_frame:
  "filemaps (fst (initProgressFromFilemap base fm s)) = filemaps s"
  "filemapLoading (fst (initProgressFromFilemap base fm s)) = filemapLoading s"
  "filemaps (fst (node_initProgressFromFilemap base fm s)) = filemaps s"
  "filemapLoading (fst (node_initProgressFromFilemap base fm s)) = filemapLoading s"
  unfolding initProgressFromFilemap_def node_initProgressFromFilemap_def
  by (simp_all split: option.splits prod.splits)

lemma initProgressFromFilemap_stored:
  "snd (initProgressFromFilemap base fm (s\<lparr>filemaps := F\<rparr>)) = snd (initProgressFromFilemap base fm s)"
  "progressState (fst (initProgressFromFilemap base fm (s\<lparr>filemaps := F\<rparr>)))
     = progressState (fst (initProgressFromFilemap base fm s))"
  "snd (node_initProgressFromFilemap base fm (s\<lparr>filemaps := F\<rparr>)) = snd (node_initProgressFromFilemap base fm s)"
  "progressState (fst (node_initProgressFromFilemap base fm (s\<lparr>filemaps := F\<rparr>)))
     = progressState (fst (node_initProgressFromFilemap base fm s))"
  unfolding initProgressFromFilemap_def node_initProgressFromFilemap_def
  by (simp_all split: option.splits prod.splits)

lemma loadFilemap_loaded:
  assumes "filemaps s base = None" and "filemapLoading s base = None"
    and "fetch_json (base @ ''/filemap.json'') = FilemapResponse code (Some fm)" and "http_ok code"
    and "snd (initProgressFromFilemap base fm s) = None"
  shows "fst (loadFilemap fetch_json base s) = Some fm"
    and "filemaps (snd (loadFilemap fetch_json base s)) base = Some fm"
    and "progressState (snd (loadFilemap fetch_json base s))
           = progressState (fst (initProgressFromFilemap base fm s))"
proof -
  let ?s0 = "s\<lparr>filemaps := (filemaps s)(base \<mapsto> fm)\<rparr>"
  obtain s1 where s1: "initProgressFromFilemap base fm ?s0 = (s1, None)"
    using initProgressFromFilemap_stored(1)[of base fm "(filemaps s)(base \<mapsto> fm)" s] assms(5)
    by (cases "initProgressFromFilemap base fm ?s0") simp
  have l: "loadFilemap fetch_json base s
             = (Some fm, s1\<lparr>filemapLoading := (filemapLoading s1)(base \<mapsto> Some fm)\<rparr>)"
    unfolding loadFilemap_def using assms(1-4) s1 by simp
  have f: "filemaps s1 = (filemaps s)(base \<mapsto> fm)"
    using initProgressFromFilemap_frame(1)[of base fm ?s0] s1 by simp
  have p: "progressState s1 = progressState (fst (initProgressFromFilemap base fm s))"
    using initProgressFromFilemap_stored(2)[of base fm "(filemaps s)(base \<mapsto> fm)" s] s1 by simp
  show "fst (loadFilemap fetch_json base s) = Some fm" unfolding l by simp
  show "filemaps (snd (loadFilemap fetch_json base s)) base = Some fm" unfolding l using f by simp
  show "progressState (snd (loadFilemap fetch_json base s))
           = progressState (fst (initProgressFromFilemap base fm s))"
    unfolding l using p by simp
qed

lemma node_loadFilemap_loaded:
  assumes "filemaps s key = None" and "filemapLoading s key = None"
    and "fst (node_read_filemap env io key isLocal fs) = Some fm"
    and "snd (node_initProgressFromFilemap key fm s) = None"
  shows "fst (node_loadFilemap env io key isLocal s fs) = Some fm"
    and "filemaps (fst (snd (node_loadFilemap env io key isLocal s fs))) key = Some fm"
    and "progressState (fst (snd (node_loadFilemap env io key isLocal s fs)))
           = progressState (fst (node_initProgressFromFilemap key fm s))"
proof -
  let ?s0 = "s\<lparr>filemaps := (filemaps s)(key \<mapsto> fm)\<rparr>"
  obtain fs1 awaited where r: "node_read_filemap env io key isLocal fs = (Some fm, fs1, awaited)"
    using assms(3) by (cases "node_read_filemap env io key isLocal fs") auto
  obtain s1 where s1: "node_initProgressFromFilemap key fm ?s0 = (s1, None)"
    using initProgressFromFilemap_stored(3)[of key fm "(filemaps s)(key \<mapsto> fm)" s] assms(4)
    by (cases "node_initProgressFromFilemap key fm ?s0") simp
  have l: "node_loadFilemap env io key isLocal s fs
             = (Some fm, s1\<lparr>filemapLoading := (filemapLoading s1)(key \<mapsto> Some fm)\<rparr>, fs1)"
    unfolding node_loadFilemap_def using assms(1,2) r s1 by simp
  have f: "filemaps s1 = (filemaps s)(key \<mapsto> fm)"
    using initProgressFromFilemap_frame(3)[of key fm ?s0] s1 by simp
  have p: "progressState s1 = progressState (fst (node_initProgressFromFilemap key fm s))"
    using initProgressFromFilemap_stored(4)[of key fm "(filemaps s)(key \<mapsto> fm)" s] s1 by simp
  show "fst (node_loadFilemap env io key isLocal s fs) = Some fm" unfolding l by simp
  show "filemaps (fst (snd (node_loadFilemap env io key isLocal s fs))) key = Some fm"
    unfolding l using f by simp
  show "progressState (fst (snd (node_loadFilemap env io key isLocal s fs)))
           = progressState (fst (node_initProgressFromFilemap key fm s))"
    unfolding l using p by simp
qed

lemma missing_manifest_init:
  assumes "progress src" and "progressState s (pathPrefix src) = Some st"
    and "st_mode st = Explicit" and "selectedManifest st = Some name"
    and "js_get (manifests_or_empty fm) name = Undefined"
    and "distinct (map fst (fm_files fm))"
  shows "find (\<lambda>x. cdnBase x = base) (sources s) = Some src \<Longrightarrow>
           snd (initProgressFromFilemap base fm s) = None
         \<and> tracks_all_files fm name (progressState (fst (initProgressFromFilemap base fm s)) (pathPrefix src))"
    and "find (\<lambda>x. sourceKey x = base) (sources s) = Some src \<Longrightarrow>
           snd (node_initProgressFromFilemap base fm s) = None
         \<and> tracks_all_files fm name (progressState (fst (node_initProgressFromFilemap base fm s)) (pathPrefix src))"
proof -
  let ?st' = "setFilesFromList st fm (map fst (fm_files fm))"
  have t: "tracks_all_files fm name (Some ?st')"
    unfolding tracks_all_files_def
    using setFilesFromList_frame[of st fm] setFilesFromList_all[OF assms(6), of st] assms(3,4)
    by simp
  show "find (\<lambda>x. cdnBase x = base) (sources s) = Some src \<Longrightarrow>
           snd (initProgressFromFilemap base fm s) = None
         \<and> tracks_all_files fm name (progressState (fst (initProgressFromFilemap base fm s)) (pathPrefix src))"
    unfolding initProgressFromFilemap_def
    using assms(1,2) initProgress_missing(1)[OF assms(3-5)] t by simp
  show "find (\<lambda>x. sourceKey x = base) (sources s) = Some src \<Longrightarrow>
           snd (node_initProgressFromFilemap base fm s) = None
         \<and> tracks_all_files fm name (progressState (fst (node_initProgressFromFilemap base fm s)) (pathPrefix src))"
    unfolding node_initProgressFromFilemap_def
    using assms(1,2) initProgress_missing(2)[OF assms(3-5)] t by simp
qed

text \<open>
  Claim C7, as amended. A source is registered in explicit mode, with progress enabled,
  as the first source of its base (in Node, of its source key), and the manifest name it
  asks for is neither a key of the manifests of the filemap nor a name that every object
  inherits. Then a load that obtains the filemap returns it and makes the progress state
  of the source track all files of the filemap, each with nothing loaded, with the sum of
  their sizes as total; the mode stays explicit and the selected manifest stays the
  missing name.
\<close>

theorem missing_manifest_keeps_explicit_mode:
  assumes "progress src" and "progressState s (pathPrefix src) = Some st"
    and "st_mode st = Explicit" and "selectedManifest st = Some name"
    and "js_get (manifests_or_empty fm) name = Undefined"
    and "distinct (map fst (fm_files fm))"
    and "filemaps s base = None" and "filemapLoading s base = None"
  shows "(find (\<lambda>x. cdnBase x = base) (sources s) = Some src
          \<and> fetch_json (base @ ''/filemap.json'') = FilemapResponse code (Some fm) \<and> http_ok code \<longrightarrow>
            fst (loadFilemap fetch_json base s) = Some fm
          \<and> tracks_all_files fm name (progressState (snd (loadFilemap fetch_json base s)) (pathPrefix src)))
       \<and> (find (\<lambda>x. sourceKey x = base) (sources s) = Some src
          \<and> fst (node_read_filemap env io base isLocal fs) = Some fm \<longrightarrow>
            fst (node_loadFilemap env io base isLocal s fs) = Some fm
          \<and> tracks_all_files fm name
              (progressState (fst (snd (node_loadFilemap env io base isLocal s fs))) (pathPrefix src)))"
proof (intro conjI impI)
  assume a: "find (\<lambda>x. cdnBase x = base) (sources s) = Some src
          \<and> fetch_json (base @ ''/filemap.json'') = FilemapResponse code (Some fm) \<and> http_ok code"
  note i = missing_manifest_init(1)[OF assms(1-6), of base]
  note l = loadFilemap_loaded[OF assms(7,8), of fetch_json code fm]
  show "fst (loadFilemap fetch_json base s) = Some fm" using a i l(1) by blast
  show "tracks_all_files fm name (progressState (snd (loadFilemap fetch_json base s)) (pathPrefix src))"
    using a i l(3) by simp
next
  assume a: "find (\<lambda>x. sourceKey x = base) (sources s) = Some src
          \<and> fst (node_read_filemap env io base isLocal fs) = Some fm"
  note i = missing_manifest_init(2)[OF assms(1-6), of base]
  note l = node_loadFilemap_loaded[OF assms(7,8), of env io isLocal fs fm]
  show "fst (node_loadFilemap env io base isLocal s fs) = Some fm" using a i l(1) by blast
  show "tracks_all_files fm name
          (progressState (fst (snd (node_loadFilemap env io base isLocal s fs))) (pathPrefix src))"
    using a i l(3) by simp
qed

text \<open>
  The claim as stated says that the state degrades to fallback mode and tracks all files.
  With the manifest \<open>q8\<close> requested and only \<open>q4\<close> in the filemap, the mode after the load
  is explicit in both variants. With the manifest \<open>constructor\<close> requested, which is not
  in the filemap either, the load returns nothing and leaves the state tracking no file.
  With two sources registered for one base, the state of the second, which asks for
  \<open>q8\<close>, is as the registration made it, tracking no file.
\<close>

theorem missing_manifest_counterexample:
  "st_mode (makeProgressState ''q8'') = Explicit
   \<and> map_of (manifests_or_empty ex_filemap) ''q8'' = None
   \<and> map_option st_mode (progressState (snd (loadFilemap (ex_fetch_json ex_filemap)
          ''https://cdn'' (ex_explicit ''q8''))) ''/m/'') = Some Explicit
   \<and> map_option st_mode (progressState (fst (snd (node_loadFilemap ex_node_env_ok
          (ex_io ex_filemap) ''https://cdn'' False (ex_explicit ''q8'') Map.empty)))
          ''/m/'') = Some Explicit
   \<and> map_of (manifests_or_empty ex_filemap) ''constructor'' = None
   \<and> fst (loadFilemap (ex_fetch_json ex_filemap) ''https://cdn''
          (ex_explicit ''constructor'')) = None
   \<and> map_option files (progressState (snd (loadFilemap (ex_fetch_json ex_filemap)
          ''https://cdn'' (ex_explicit ''constructor''))) ''/m/'') = Some []
   \<and> progressState (snd (loadFilemap (ex_fetch_json ex_filemap)
          ''https://cdn'' ex_two_sources)) ''/n/'' = Some (makeProgressState ''q8'')
   \<and> files (makeProgressState ''q8'') = []"
  by (simp add: makeProgressState_def ex_filemap_def manifests_or_empty_def loadFilemap_def
      node_loadFilemap_def node_read_filemap_def initProgressFromFilemap_def
      node_initProgressFromFilemap_def initProgress_def node_initProgress_def
      setFilesFromList_frame setFilesFromUndefined_def js_get_def property_key_def
      object_prototype_names_def ex_explicit_def ex_two_sources_def ex_tracked_def ex_io_def ex_fetch_json_def
      ex_node_env_ok_def ex_node_env_def http_ok_def sourceKey_def)

theorem missing_manifest_keeps_explicit_mode_witness:
  "fst (loadFilemap (ex_fetch_json ex_filemap) ''https://cdn'' (ex_explicit ''q8''))
     = Some ex_filemap
   \<and> map_option files (progressState (snd (loadFilemap (ex_fetch_json ex_filemap)
          ''https://cdn'' (ex_explicit ''q8''))) ''/m/'')
       = Some [(''config.json'', \<lparr>fp_size = 10, fp_loaded = 0\<rparr>), (''model_q4.onnx'', \<lparr>fp_size = 20, fp_loaded = 0\<rparr>)]
   \<and> map_option totalBytes (progressState (snd (loadFilemap (ex_fetch_json ex_filemap)
          ''https://cdn'' (ex_explicit ''q8''))) ''/m/'') = Some 30
   \<and> map_option selectedManifest (progressState (snd (loadFilemap (ex_fetch_json ex_filemap)
          ''https://cdn'' (ex_explicit ''q8''))) ''/m/'') = Some (Some ''q8'')
   \<and> map_option totalBytes (progressState (fst (snd (node_loadFilemap ex_node_env_ok
          (ex_io ex_filemap) ''https://cdn'' False (ex_explicit ''q8'') Map.empty)))
          ''/m/'') = Some 30"
proof -
  let ?src = "ex_tracked\<lparr>src_manifest := ''q8''\<rparr>"
  let ?io = "ex_io ex_filemap"
  let ?fetch = "ex_fetch_json ex_filemap"
  have a: "progress ?src" "progressState (ex_explicit ''q8'') (pathPrefix ?src) = Some (makeProgressState ''q8'')"
    "st_mode (makeProgressState ''q8'') = Explicit"
    "selectedManifest (makeProgressState ''q8'') = Some ''q8''"
    "js_get (manifests_or_empty ex_filemap) ''q8'' = Undefined"
    "distinct (map fst (fm_files ex_filemap))"
    "filemaps (ex_explicit ''q8'') ''https://cdn'' = None"
    "filemapLoading (ex_explicit ''q8'') ''https://cdn'' = None"
    by (simp_all add: ex_explicit_def ex_tracked_def makeProgressState_def manifests_or_empty_def
        ex_filemap_def js_get_def object_prototype_names_def)
  have b: "find (\<lambda>x. cdnBase x = ''https://cdn'') (sources (ex_explicit ''q8'')) = Some ?src"
    "find (\<lambda>x. sourceKey x = ''https://cdn'') (sources (ex_explicit ''q8'')) = Some ?src"
    "?fetch (''https://cdn'' @ ''/filemap.json'') = FilemapResponse 200 (Some ex_filemap)"
    "http_ok 200"
    "fst (node_read_filemap ex_node_env_ok ?io ''https://cdn'' False Map.empty) = Some ex_filemap"
    by (simp_all add: ex_explicit_def ex_tracked_def sourceKey_def http_ok_def node_read_filemap_def
        ex_io_def ex_fetch_json_def ex_node_env_ok_def ex_node_env_def)
  have p: "pathPrefix ?src = ''/m/''" by (simp add: ex_tracked_def)
  from missing_manifest_keeps_explicit_mode[OF a, of ?fetch 200 ex_node_env_ok ?io False Map.empty] b
  show ?thesis
    unfolding p tracks_all_files_def
    by (auto simp: ex_filemap_def tracked_entry_def split: option.splits)
qed

section \<open>Loading does not validate manifest sizes\<close>

text \<open>
  Claim C8, as amended. Loading compares no manifest size with the files of the
  manifest. In the service worker, whatever filemap the request delivers with a
  successful status and the parser accepts is stored under the base of the source and
  returned, provided the initialisation of the progress state does not throw. In Node
  the same holds for whatever document is read from the local directory, from the disk
  copy, or from the network with the disk copy written.
\<close>

theorem loadFilemap_stores_what_it_obtains:
  assumes "filemaps s base = None" and "filemapLoading s base = None"
  shows "(fetch_json (base @ ''/filemap.json'') = FilemapResponse code (Some fm) \<and> http_ok code
          \<and> snd (initProgressFromFilemap base fm s) = None \<longrightarrow>
            fst (loadFilemap fetch_json base s) = Some fm
          \<and> filemaps (snd (loadFilemap fetch_json base s)) base = Some fm)
       \<and> (fst (node_read_filemap env io base isLocal fs) = Some fm
          \<and> snd (node_initProgressFromFilemap base fm s) = None \<longrightarrow>
            fst (node_loadFilemap env io base isLocal s fs) = Some fm
          \<and> filemaps (fst (snd (node_loadFilemap env io base isLocal s fs))) base = Some fm)"
  using loadFilemap_loaded(1,2)[OF assms, of fetch_json code fm]
    node_loadFilemap_loaded(1,2)[OF assms, of env io isLocal fs fm]
  by blast

text \<open>
  The claim as stated says that a filemap with a manifest whose size differs from the
  sum of its files is rejected. A manifest of size 999 over files of 10 and 20 bytes is
  loaded and returned by both variants.
\<close>

theorem inconsistent_manifest_counterexample:
  "\<not> filemap_consistent ex_bad_filemap
   \<and> fst (loadFilemap (ex_fetch_json ex_bad_filemap) ''https://cdn'' ex_sw_state)
        = Some ex_bad_filemap
   \<and> fst (node_loadFilemap ex_node_env_ok (ex_io ex_bad_filemap) ''https://cdn'' False ex_sw_state Map.empty)
        = Some ex_bad_filemap"
  by (simp add: filemap_consistent_def manifest_consistent_def manifests_or_empty_def
      ex_bad_filemap_def ex_filemap_def loadFilemap_def node_loadFilemap_def node_read_filemap_def
      initProgressFromFilemap_def node_initProgressFromFilemap_def initProgress_def
      node_initProgress_def makeProgressState_def ex_sw_state_def ex_tracked_def ex_io_def ex_fetch_json_def
      ex_node_env_ok_def ex_node_env_def http_ok_def sourceKey_def Let_def)

theorem loadFilemap_stores_what_it_obtains_witness:
  "fst (loadFilemap (ex_fetch_json ex_bad_filemap) ''https://cdn'' ex_sw_state)
        = Some ex_bad_filemap
   \<and> filemaps (snd (loadFilemap (ex_fetch_json ex_bad_filemap) ''https://cdn'' ex_sw_state))
        ''https://cdn'' = Some ex_bad_filemap
   \<and> fst (node_loadFilemap ex_node_env_ok (ex_io ex_bad_filemap) ''https://cdn'' False ex_sw_state Map.empty)
        = Some ex_bad_filemap
   \<and> filemaps (fst (snd (node_loadFilemap ex_node_env_ok (ex_io ex_bad_filemap) ''https://cdn'' False ex_sw_state Map.empty)))
        ''https://cdn'' = Some ex_bad_filemap"
proof -
  have a: "filemaps ex_sw_state ''https://cdn'' = None" "filemapLoading ex_sw_state ''https://cdn'' = None"
    by (simp_all add: ex_sw_state_def)
  have b: "http_ok 200"
    "snd (initProgressFromFilemap ''https://cdn'' ex_bad_filemap ex_sw_state) = None"
    "fst (node_read_filemap ex_node_env_ok (ex_io ex_bad_filemap) ''https://cdn'' False Map.empty) = Some ex_bad_filemap"
    "snd (node_initProgressFromFilemap ''https://cdn'' ex_bad_filemap ex_sw_state) = None"
    by (simp_all add: http_ok_def initProgressFromFilemap_def node_initProgressFromFilemap_def
        initProgress_def node_initProgress_def makeProgressState_def ex_sw_state_def ex_tracked_def
        node_read_filemap_def ex_io_def ex_fetch_json_def ex_node_env_ok_def ex_node_env_def sourceKey_def
        manifests_or_empty_def ex_bad_filemap_def ex_filemap_def Let_def)
  from loadFilemap_stores_what_it_obtains[OF a,
      of "ex_fetch_json ex_bad_filemap" 200 ex_bad_filemap
         ex_node_env_ok "ex_io ex_bad_filemap" False Map.empty] b
  show ?thesis by (simp add: ex_fetch_json_def)
qed

text \<open>
  The other ways in which a load fails. A filemap that has been fetched and parsed is
  neither stored nor returned by the Node resolver when the disk copy cannot be written.
  A local load that fails leaves the promise of \<open>null\<close> behind, and the next load returns
  it although the file is there by then.
\<close>

lemma node_disk_copy_failure_fails_the_load:
  "fst (node_loadFilemap ex_node_env (ex_io ex_bad_filemap) ''https://cdn'' False ex_sw_state Map.empty) = None
   \<and> filemaps (fst (snd (node_loadFilemap ex_node_env (ex_io ex_bad_filemap) ''https://cdn'' False ex_sw_state Map.empty)))
        ''https://cdn'' = None"
  by (simp add: node_loadFilemap_def node_read_filemap_def node_load_failed_def ex_sw_state_def
      ex_io_def ex_fetch_json_def ex_node_env_def http_ok_def)

lemma node_failed_local_load_is_kept:
  "fst (node_loadFilemap ex_node_env_ok (ex_io ex_bad_filemap) ''/pkg'' True ex_sw_state Map.empty) = None
   \<and> fst (node_loadFilemap ex_node_env_ok (ex_io ex_bad_filemap) ''/pkg'' True
        (fst (snd (node_loadFilemap ex_node_env_ok (ex_io ex_bad_filemap) ''/pkg'' True ex_sw_state Map.empty)))
        [''/pkg/filemap.json'' \<mapsto> []]) = None"
  by (simp add: node_loadFilemap_def node_read_filemap_def node_load_failed_def ex_sw_state_def
      ex_io_def ex_fetch_json_def path_join_def)

section \<open>A failed cache write\<close>

text \<open>
  In the service worker a failed write to Cache Storage does not fail the fetch; in the
  Node resolver it is caught by the retry loop like a failed download, so that a cache
  file that cannot be written fails the read however often the download succeeds.
\<close>

lemma sw_cache_write_failure_is_not_fatal:
  assumes "cache_match env c (cdnBase src @ ''/'' @ file) = None"
    and "sw_fetch env (cdnBase src @ ''/'' @ file) None = HttpResponse st buf" and "http_ok st"
  shows "fst (fetchShard env file src c) = Inr buf"
  using assms unfolding fetchShard_def Let_def by simp

lemma fetch_attempts_write_fails:
  assumes "\<forall>i. \<exists>st buf. node_fetch env url i = HttpResponse st buf \<and> http_ok st"
    and "\<not> fs_write_ok env (shardCachePath env url)"
  shows "fetch_attempts env url i (Suc k) lastErr fs = (Inl CacheWriteError, fs)"
proof (induction k arbitrary: i lastErr)
  case 0
  from assms(1) obtain st buf where "node_fetch env url i = HttpResponse st buf" "http_ok st" by blast
  then show ?case using assms(2) by simp
next
  case (Suc k)
  from assms(1) obtain st buf where "node_fetch env url i = HttpResponse st buf" "http_ok st" by blast
  then show ?case using assms(2) Suc.IH[of "i + 1" "Some CacheWriteError"] by simp
qed

lemma node_cache_write_failure_is_fatal:
  assumes "fs (shardCachePath env url) = None"
    and "\<forall>i. \<exists>st buf. node_fetch env url i = HttpResponse st buf \<and> http_ok st"
    and "\<not> fs_write_ok env (shardCachePath env url)"
    and "retries env > 0"
  shows "node_fetchShardBuf env url fs = (Inl CacheWriteError, fs)"
proof -
  from assms(4) obtain k where k: "retries env = Suc k" by (cases "retries env") auto
  show ?thesis unfolding node_fetchShardBuf_def k
    using assms(1) fetch_attempts_write_fails[OF assms(2,3)] by simp
qed

text \<open>
  Claim C9 at a failing input. Every download attempt of the shard succeeds with status
  200 and every write of the cache file fails: \<open>_fetchShardBuf\<close> throws the write error
  after its three attempts, while \<open>fetchShard\<close> of the service worker, with a Cache
  Storage that rejects every write, returns the fetched bytes.
\<close>

theorem node_cache_write_failure_fails_the_read:
  "node_fetch ex_node_env ''https://cdn/a.shard.000'' 0 = HttpResponse 200 [1, 2]
   \<and> node_fetchShardBuf ex_node_env ''https://cdn/a.shard.000'' Map.empty = (Inl CacheWriteError, Map.empty)
   \<and> fetchShard ex_sw_env ''a.shard.000'' ex_remote Map.empty = (Inr [1, 2], Map.empty)"
  by (simp add: node_fetchShardBuf_def ex_node_env_def numeral_3_eq_3 http_ok_def ex_content_def
      fetchShard_def ex_sw_env_def ex_remote_def cache_match_def cache_put_def)

section \<open>The shard list written by the packager\<close>

lemma ceil_div_step:
  fixes m n :: nat
  assumes "n > 0" "m > 0"
  shows "(m + n - 1) div n = Suc ((m - n + n - 1) div n)"
proof (cases "m \<le> n")
  case True
  have a: "(m + n - 1) div n = 1"
    by (rule div_nat_eqI) (use True assms in auto)
  have b: "(m - n + n - 1) div n = 0" using True assms by simp
  show ?thesis using a b by simp
next
  case False
  then have e1: "m + n - 1 = (m - 1) + n" and e2: "m - n + n - 1 = m - 1"
    using assms by simp_all
  have "((m - 1) + n) div n = Suc ((m - 1) div n)"
    using div_add_self2[of n "m - 1"] assms(1) by simp
  then show ?thesis by (simp only: e1 e2)
qed

lemma split_b_concat: "n > 0 \<Longrightarrow> concat (split_b n xs) = xs"
proof (induction n xs rule: split_b.induct)
  case (1 n xs)
  show ?case
  proof (cases "xs = []")
    case True
    then show ?thesis by (simp add: split_b.simps)
  next
    case False
    then show ?thesis using 1 by (subst split_b.simps) simp
  qed
qed

lemma split_b_length: "n > 0 \<Longrightarrow> length (split_b n xs) = (length xs + n - 1) div n"
proof (induction n xs rule: split_b.induct)
  case (1 n xs)
  show ?case
  proof (cases "xs = []")
    case True
    then show ?thesis using 1(2) by (simp add: split_b.simps)
  next
    case False
    have IH: "length (split_b n (drop n xs)) = (length (drop n xs) + n - 1) div n"
      using 1 False by simp
    have "length (split_b n xs) = Suc (length (split_b n (drop n xs)))"
      using False 1(2) by (subst split_b.simps) simp
    then show ?thesis using IH ceil_div_step[OF 1(2), of "length xs"] False by simp
  qed
qed

lemma split_b_nth:
  "n > 0 \<Longrightarrow> i < length (split_b n xs) \<Longrightarrow> split_b n xs ! i = take n (drop (i * n) xs)"
proof (induction n xs arbitrary: i rule: split_b.induct)
  case (1 n xs)
  have ne: "xs \<noteq> []" using 1(3) by (auto simp: split_b.simps)
  have unf: "split_b n xs = take n xs # split_b n (drop n xs)"
    using ne 1(2) by (subst split_b.simps) simp
  show ?case
  proof (cases i)
    case 0
    then show ?thesis using unf by simp
  next
    case (Suc j)
    have "j < length (split_b n (drop n xs))" using 1(3) unf Suc by simp
    from 1(1)[OF _ 1(2) this] ne 1(2)
    have "split_b n (drop n xs) ! j = take n (drop (j * n) (drop n xs))" by simp
    then show ?thesis using unf Suc by (simp add: add.commute)
  qed
qed

lemma split_b_pieces:
  assumes "n > 0"
  shows "\<forall>p\<in>set (butlast (split_b n xs)). length p = n"
    and "xs \<noteq> [] \<Longrightarrow> 0 < length (last (split_b n xs)) \<and> length (last (split_b n xs)) \<le> n"
proof -
  have "(\<forall>p\<in>set (butlast (split_b n xs)). length p = n)
     \<and> (xs \<noteq> [] \<longrightarrow> 0 < length (last (split_b n xs)) \<and> length (last (split_b n xs)) \<le> n)"
    using assms
  proof (induction n xs rule: split_b.induct)
    case (1 n xs)
    show ?case
    proof (cases "xs = []")
      case True
      then show ?thesis by (simp add: split_b.simps)
    next
      case False
      have unf: "split_b n xs = take n xs # split_b n (drop n xs)"
        using False 1(2) by (subst split_b.simps) simp
      have IH: "(\<forall>p\<in>set (butlast (split_b n (drop n xs))). length p = n)
         \<and> (drop n xs \<noteq> [] \<longrightarrow> 0 < length (last (split_b n (drop n xs)))
              \<and> length (last (split_b n (drop n xs))) \<le> n)"
        using 1 False by simp
      show ?thesis
      proof (cases "drop n xs = []")
        case True
        then have "split_b n xs = [take n xs]" using unf by (simp add: split_b.simps)
        then show ?thesis using False 1(2) by simp
      next
        case dne: False
        then have ne2: "split_b n (drop n xs) \<noteq> []" using 1(2) by (subst split_b.simps) simp
        have "length (take n xs) = n" using dne by simp
        then show ?thesis using IH dne ne2 unf by simp
      qed
    qed
  qed
  then show "\<forall>p\<in>set (butlast (split_b n xs)). length p = n"
    and "xs \<noteq> [] \<Longrightarrow> 0 < length (last (split_b n xs)) \<and> length (last (split_b n xs)) \<le> n"
    by simp_all
qed

lemma shard_records_chain: "chain off (shard_records sha off nps)"
  by (induction sha off nps rule: shard_records.induct) simp_all

lemma shard_records_sizes:
  "map shard_size (shard_records sha off nps) = map (\<lambda>np. int (length (snd np))) nps"
  by (induction sha off nps rule: shard_records.induct) simp_all

lemma shard_records_files: "map shard_file (shard_records sha off nps) = map fst nps"
  by (induction sha off nps rule: shard_records.induct) simp_all

lemma shard_records_sha:
  "map shard_sha256 (shard_records sha off nps) = map (\<lambda>np. Some (sha (snd np))) nps"
  by (induction sha off nps rule: shard_records.induct) simp_all

lemma shard_records_offsets:
  "i < length nps \<Longrightarrow> (\<forall>j<i. int (length (snd (nps ! j))) = c) \<Longrightarrow>
   shard_offset (shard_records sha off nps ! i) = off + int i * c"
proof (induction sha off nps arbitrary: i rule: shard_records.induct)
  case (1 sha off)
  then show ?case by simp
next
  case (2 sha off sfn piece rest)
  show ?case
  proof (cases i)
    case 0
    then show ?thesis by simp
  next
    case (Suc j)
    have c: "int (length piece) = c" using 2(3) Suc by auto
    have "\<forall>k<j. int (length (snd (rest ! k))) = c" using 2(3) Suc by auto
    from 2(1)[OF _ this] 2(2) Suc
    have "shard_offset (shard_records sha (off + int (length piece)) rest ! j)
            = off + int (length piece) + int j * c" by simp
    then show ?thesis using Suc c by (simp add: algebra_simps)
  qed
qed


lemma sum_piece_lengths: "sum_list (map (\<lambda>p. int (length p)) ps) = int (length (concat ps))"
  by (induction ps) simp_all

lemma butlast_nth_mem: "j < length xs - 1 \<Longrightarrow> xs ! j \<in> set (butlast xs)"
  using nth_mem[of j "butlast xs"] by (simp add: nth_butlast)

lemma digit_less: "\<forall>b\<in>set [0..<10]. \<forall>a\<in>set [0..<b]. ''0123456789'' ! a < ''0123456789'' ! b"
  by code_simp

lemma digit_mono: "a < b \<Longrightarrow> b < 10 \<Longrightarrow> ''0123456789'' ! a < ''0123456789'' ! b"
  using digit_less by simp

lemma shard_suffix_mono:
  assumes "i < j" and "j < 1000"
  shows "shard_suffix i < shard_suffix j"
proof -
  let ?d = "\<lambda>n. ''0123456789'' ! n"
  have bounds: "i div 100 mod 10 \<le> j div 100 mod 10" "j div 100 mod 10 < 10"
    "j div 10 mod 10 < 10" "j mod 10 < 10"
    using assms by simp_all
  have dec: "n = 100 * (n div 100 mod 10) + 10 * (n div 10 mod 10) + n mod 10" if "n < 1000" for n :: nat
  proof -
    have a: "n div 100 mod 10 = n div 100" using that by simp
    have b: "n mod 100 = 10 * (n div 10 mod 10) + n mod 10"
      using mod_mult2_eq[of n 10 10] by simp
    have "n = 100 * (n div 100) + n mod 100" by simp
    then show ?thesis unfolding a b by simp
  qed
  define a1 b1 c1 where "a1 = i div 100 mod 10" and "b1 = i div 10 mod 10" and "c1 = i mod 10"
  define a2 b2 c2 where "a2 = j div 100 mod 10" and "b2 = j div 10 mod 10" and "c2 = j mod 10"
  have i: "i = 100 * a1 + 10 * b1 + c1" and j: "j = 100 * a2 + 10 * b2 + c2"
    unfolding a1_def b1_def c1_def a2_def b2_def c2_def using dec[of i] dec[of j] assms by simp_all
  have lt: "b1 < 10" "c1 < 10" "b2 < 10" "c2 < 10"
    unfolding b1_def c1_def b2_def c2_def by simp_all
  have "100 * a1 + 10 * b1 + c1 < 100 * a2 + 10 * b2 + c2"
    using assms(1) i j by simp
  then have "a1 < a2 \<or> (a1 = a2 \<and> b1 < b2) \<or> (a1 = a2 \<and> b1 = b2 \<and> c1 < c2)"
    using lt by arith
  then consider (a) "i div 100 mod 10 < j div 100 mod 10"
    | (b) "i div 100 mod 10 = j div 100 mod 10" "i div 10 mod 10 < j div 10 mod 10"
    | (c) "i div 100 mod 10 = j div 100 mod 10" "i div 10 mod 10 = j div 10 mod 10" "i mod 10 < j mod 10"
    unfolding a1_def b1_def c1_def a2_def b2_def c2_def by blast
  then show ?thesis
  proof cases
    case a
    then show ?thesis unfolding shard_suffix_def using digit_mono[OF a bounds(2)] by simp
  next
    case b
    then show ?thesis unfolding shard_suffix_def using digit_mono[OF b(2) bounds(3)] by simp
  next
    case c
    then show ?thesis unfolding shard_suffix_def using digit_mono[OF c(3) bounds(4)] by simp
  qed
qed

lemma append_less_append: "p @ xs < p @ ys \<longleftrightarrow> xs < (ys :: string)"
  by (induction p) auto

lemma split_names_sorted:
  assumes "k \<le> 1000"
  shows "sorted (split_names pre k)" and "distinct (split_names pre k)"
proof -
  have less: "split_names pre k ! i < split_names pre k ! j" if "i < j" "j < k" for i j
    using that assms shard_suffix_mono[of i j]
    by (simp add: split_names_def append_less_append)
  have len: "length (split_names pre k) = k" by (simp add: split_names_def)
  show "sorted (split_names pre k)"
    unfolding sorted_iff_nth_mono_less len using less by (simp add: less_imp_le)
  show "distinct (split_names pre k)"
    unfolding distinct_conv_nth len
  proof (intro allI impI)
    fix i j assume "i < k" "j < k" "i \<noteq> j"
    then consider "i < j" | "j < i" by linarith
    then show "split_names pre k ! i \<noteq> split_names pre k ! j"
      using less[of i j] less[of j i] \<open>i < k\<close> \<open>j < k\<close> by cases auto
  qed
qed

lemma split_names_match: "n \<in> set (split_names pre k) \<Longrightarrow> matches_prefix pre n"
  by (auto simp: split_names_def matches_prefix_def)

lemma fold_write_fresh:
  "distinct (map fst nps) \<Longrightarrow> fst ` set nps \<inter> fst ` set dir = {} \<Longrightarrow>
   fold (\<lambda>(name, piece). write_file name piece) nps dir = dir @ nps"
proof (induction nps arbitrary: dir)
  case Nil
  then show ?case by simp
next
  case (Cons np nps)
  obtain n p where np: "np = (n, p)" by (cases np)
  have absent: "n \<notin> fst ` set dir" using Cons.prems(2) np by auto
  have w: "write_file n p dir = dir @ [(n, p)]"
    unfolding write_file_def by (rule update_absent[OF absent])
  have d: "distinct (map fst nps)" using Cons.prems(1) by simp
  have "n \<notin> fst ` set nps" using Cons.prems(1) np by (simp add: image_iff)
  then have f: "fst ` set nps \<inter> fst ` set (dir @ [(n, p)]) = {}"
    using Cons.prems(2) by auto
  show ?case using Cons.IH[OF d f] np w by simp
qed

lemma filter_update_other:
  "\<not> Q k \<Longrightarrow> filter (\<lambda>f. Q (fst f)) (AList.update k v xs) = filter (\<lambda>f. Q (fst f)) xs"
  by (induction xs) auto

lemma flat_name_no_match: "\<not> matches_prefix (fn @ ''.shard.'') fn"
proof
  assume "matches_prefix (fn @ ''.shard.'') fn"
  then have "length (take (length (fn @ ''.shard.'')) fn) = length (fn @ ''.shard.'')"
    unfolding matches_prefix_def by simp
  then show False by simp
qed

lemma byte_split_fresh:
  assumes pos: "0 < CHUNK_SIZE" and ne: "content \<noteq> []"
    and cnt: "shard_count (length content) CHUNK_SIZE \<le> 1000"
    and fresh: "\<forall>f\<in>set dir. \<not> matches_prefix (fn @ ''.shard.'') (fst f)"
  shows "\<exists>dir'. byte_split sha CHUNK_SIZE keep fn content dir =
           Inr (shard_records sha 0
                  (zip (split_names (fn @ ''.shard.'') (length (split_b CHUNK_SIZE content)))
                       (split_b CHUNK_SIZE content)), dir')"
proof -
  define pieces where "pieces = split_b CHUNK_SIZE content"
  define pre where "pre = fn @ ''.shard.''"
  define names where "names = split_names pre (length pieces)"
  define nps where "nps = zip names pieces"
  define dir1 where "dir1 = fold (\<lambda>(name, piece). write_file name piece) nps dir"
  define dir2 where "dir2 = (if keep then write_file fn content dir1 else dir1)"
  have lp: "length pieces \<le> 1000"
    using cnt unfolding pieces_def shard_count_def split_b_length[OF pos] .
  have pne: "pieces \<noteq> []"
    unfolding pieces_def using ne pos by (subst split_b.simps) simp
  have ln: "length names = length pieces" unfolding names_def split_names_def by simp
  have fsts: "map fst nps = names" unfolding nps_def using ln by simp
  have srt: "sorted names" and dst: "distinct names"
    unfolding names_def using split_names_sorted[OF lp] by simp_all
  have mt: "\<forall>f\<in>set nps. matches_prefix pre (fst f)"
  proof
    fix f assume "f \<in> set nps"
    then have "fst f \<in> set names" using fsts by (metis image_eqI set_map)
    then show "matches_prefix pre (fst f)" unfolding names_def by (rule split_names_match)
  qed
  have disj: "fst ` set nps \<inter> fst ` set dir = {}"
    using mt fresh unfolding pre_def by fastforce
  have d1: "dir1 = dir @ nps"
    unfolding dir1_def using fold_write_fresh[of nps dir] dst fsts disj by simp
  have f1: "filter (\<lambda>f. matches_prefix pre (fst f)) dir1 = nps"
  proof -
    have "filter (\<lambda>f. matches_prefix pre (fst f)) dir = []"
      using fresh unfolding pre_def by (simp add: filter_empty_conv)
    moreover have "filter (\<lambda>f. matches_prefix pre (fst f)) nps = nps"
      using mt by (simp add: filter_id_conv)
    ultimately show ?thesis unfolding d1 by simp
  qed
  have f2: "filter (\<lambda>f. matches_prefix pre (fst f)) dir2 = nps"
    unfolding dir2_def write_file_def
    using f1 filter_update_other[of "matches_prefix pre" fn content dir1] flat_name_no_match[of fn]
    by (simp add: pre_def)
  have g: "glob_prefix pre dir2 = nps"
    unfolding glob_prefix_def f2 using sort_key_id_if_sorted[of fst nps] srt fsts by simp
  have nne: "nps \<noteq> []" unfolding nps_def using pne ln by (cases names; cases pieces) simp_all
  have "byte_split sha CHUNK_SIZE keep fn content dir = Inr (shard_records sha 0 nps, dir2)"
    unfolding byte_split_def Let_def
    using lp g nne
    unfolding pieces_def pre_def names_def nps_def dir1_def dir2_def
    by simp
  then show ?thesis unfolding nps_def names_def pre_def pieces_def by blast
qed

lemma byte_split_exhausted:
  assumes "0 < CHUNK_SIZE" and "1000 < shard_count (length content) CHUNK_SIZE"
  shows "byte_split sha CHUNK_SIZE keep fn content dir = Inl SuffixesExhausted"
  using assms(2) unfolding byte_split_def Let_def shard_count_def split_b_length[OF assms(1)]
  by simp

lemma shard_records_of_pieces:
  assumes pos: "0 < CHUNK_SIZE" and big: "needs_byte_split (length content) CHUNK_SIZE"
    and res: "shs = shard_records sha 0
                (zip (split_names (fn @ ''.shard.'') (length (split_b CHUNK_SIZE content)))
                     (split_b CHUNK_SIZE content))"
  shows "length shs = shard_count (length content) CHUNK_SIZE"
    and "2 \<le> length shs"
    and "shard_offset (hd shs) = 0"
    and "chain 0 shs"
    and "sum_list (map shard_size shs) = int (length content)"
    and "\<forall>sh\<in>set (butlast shs). shard_size sh = int CHUNK_SIZE"
    and "0 < shard_size (last shs) \<and> shard_size (last shs) \<le> int CHUNK_SIZE"
    and "\<forall>i<length shs. shard_file (shs ! i) = fn @ ''.shard.'' @ shard_suffix i
           \<and> shard_offset (shs ! i) = int (i * CHUNK_SIZE)
           \<and> shard_size (shs ! i) = int (length (take CHUNK_SIZE (drop (i * CHUNK_SIZE) content)))
           \<and> shard_sha256 (shs ! i) = Some (sha (take CHUNK_SIZE (drop (i * CHUNK_SIZE) content)))"
proof -
  define pieces where "pieces = split_b CHUNK_SIZE content"
  define names where "names = map (\<lambda>i. fn @ ''.shard.'' @ shard_suffix i) [0..<length pieces]"
  define nps where "nps = zip names pieces"
  have shs: "shs = shard_records sha 0 nps"
    using res unfolding nps_def names_def pieces_def split_names_def by simp
  have ln: "length names = length pieces" unfolding names_def by simp
  have fsts: "map fst nps = names" and snds: "map snd nps = pieces"
    unfolding nps_def using ln by simp_all
  have "map (\<lambda>np. int (length (snd np))) nps = map (\<lambda>p. int (length p)) (map snd nps)"
    by simp
  then have sizes: "map shard_size shs = map (\<lambda>p. int (length p)) pieces"
    unfolding shs shard_records_sizes snds .
  have "length (map shard_size shs) = length (map (\<lambda>p. int (length p)) pieces)"
    by (simp only: sizes)
  then have len: "length shs = length pieces" by simp
  have ne: "content \<noteq> []" using big unfolding needs_byte_split_def by auto
  show count: "length shs = shard_count (length content) CHUNK_SIZE"
    unfolding len pieces_def shard_count_def by (rule split_b_length[OF pos])
  have "2 * CHUNK_SIZE \<le> length content + CHUNK_SIZE - 1"
    using big unfolding needs_byte_split_def by simp
  then have "2 \<le> (length content + CHUNK_SIZE - 1) div CHUNK_SIZE"
    using pos by (simp add: less_eq_div_iff_mult_less_eq mult.commute)
  then show two: "2 \<le> length shs" using count unfolding shard_count_def by simp
  show ch: "chain 0 shs" unfolding shs by (rule shard_records_chain)
  have "shs \<noteq> []" using two by auto
  then show "shard_offset (hd shs) = 0" using ch by (cases shs) simp_all
  show "sum_list (map shard_size shs) = int (length content)"
    unfolding sizes sum_piece_lengths pieces_def split_b_concat[OF pos] ..
  have "map shard_size (butlast shs) = map (\<lambda>p. int (length p)) (butlast pieces)"
    using sizes by (simp add: map_butlast)
  moreover have "\<forall>p\<in>set (butlast pieces). length p = CHUNK_SIZE"
    unfolding pieces_def by (rule split_b_pieces(1)[OF pos])
  ultimately have "\<forall>x\<in>set (map shard_size (butlast shs)). x = int CHUNK_SIZE" by auto
  then show "\<forall>sh\<in>set (butlast shs). shard_size sh = int CHUNK_SIZE" by simp
  have pne: "pieces \<noteq> []" using len \<open>shs \<noteq> []\<close> by auto
  have "shard_size (last shs) = last (map shard_size shs)"
    using \<open>shs \<noteq> []\<close> by (simp add: last_map)
  also have "\<dots> = int (length (last pieces))" unfolding sizes using pne by (simp add: last_map)
  finally show "0 < shard_size (last shs) \<and> shard_size (last shs) \<le> int CHUNK_SIZE"
    using split_b_pieces(2)[OF pos ne] unfolding pieces_def by simp
  show "\<forall>i<length shs. shard_file (shs ! i) = fn @ ''.shard.'' @ shard_suffix i
           \<and> shard_offset (shs ! i) = int (i * CHUNK_SIZE)
           \<and> shard_size (shs ! i) = int (length (take CHUNK_SIZE (drop (i * CHUNK_SIZE) content)))
           \<and> shard_sha256 (shs ! i) = Some (sha (take CHUNK_SIZE (drop (i * CHUNK_SIZE) content)))"
  proof (intro allI impI)
    fix i assume i: "i < length shs"
    then have ip: "i < length pieces" using len by simp
    have lnps: "length nps = length pieces" unfolding nps_def using ln by simp
    have piece: "pieces ! i = take CHUNK_SIZE (drop (i * CHUNK_SIZE) content)"
      using split_b_nth[OF pos, of i content] ip unfolding pieces_def by blast
    have "shard_file (shs ! i) = map shard_file shs ! i" using i by simp
    also have "\<dots> = names ! i" unfolding shs shard_records_files fsts ..
    also have "\<dots> = fn @ ''.shard.'' @ shard_suffix i" unfolding names_def using ip by simp
    finally have f: "shard_file (shs ! i) = fn @ ''.shard.'' @ shard_suffix i" .
    have "shard_sha256 (shs ! i) = map shard_sha256 shs ! i" using i by simp
    also have "\<dots> = Some (sha (snd (nps ! i)))"
      unfolding shs shard_records_sha using ip lnps by simp
    also have "snd (nps ! i) = pieces ! i"
      using nth_map[of i nps snd] ip lnps snds by simp
    finally have h: "shard_sha256 (shs ! i) = Some (sha (take CHUNK_SIZE (drop (i * CHUNK_SIZE) content)))"
      using piece by simp
    have "shard_size (shs ! i) = map shard_size shs ! i" using i by simp
    then have z: "shard_size (shs ! i) = int (length (take CHUNK_SIZE (drop (i * CHUNK_SIZE) content)))"
      unfolding sizes using ip piece by simp
    have "\<forall>j<i. int (length (snd (nps ! j))) = int CHUNK_SIZE"
    proof (intro allI impI)
      fix j assume j: "j < i"
      then have "j < length pieces - 1" using ip by simp
      then have "pieces ! j \<in> set (butlast pieces)" by (rule butlast_nth_mem)
      then have "length (pieces ! j) = CHUNK_SIZE"
        using split_b_pieces(1)[OF pos] unfolding pieces_def by blast
      moreover have "snd (nps ! j) = pieces ! j"
        using nth_map[of j nps snd] j ip lnps snds by simp
      ultimately show "int (length (snd (nps ! j))) = int CHUNK_SIZE" by simp
    qed
    from shard_records_offsets[OF _ this, of sha 0] ip lnps
    have o: "shard_offset (shs ! i) = int (i * CHUNK_SIZE)" unfolding shs by simp
    show "shard_file (shs ! i) = fn @ ''.shard.'' @ shard_suffix i
           \<and> shard_offset (shs ! i) = int (i * CHUNK_SIZE)
           \<and> shard_size (shs ! i) = int (length (take CHUNK_SIZE (drop (i * CHUNK_SIZE) content)))
           \<and> shard_sha256 (shs ! i) = Some (sha (take CHUNK_SIZE (drop (i * CHUNK_SIZE) content)))"
      using f o z h by simp
  qed
qed

text \<open>
  Claim C4, as amended. For every file larger than the chunk size (the chunk size being
  positive) that needs at most 1000 shards, split into an output directory that holds no
  file whose name starts with \<open>fn.shard.\<close>, the byte-split emits a shard list; the list
  has as many shards as the script announces, at least two; the first offset is 0, every
  offset is the previous offset plus the previous size (shard \<open>i\<close> starts at \<open>i\<close> times
  the chunk size), the sizes sum to the file size, every shard but the last has exactly
  the chunk size and the last has between one byte and the chunk size, and every record
  carries its file name, offset, size and the hash of its piece.
\<close>

theorem byte_split_shard_list:
  assumes "0 < CHUNK_SIZE" and "needs_byte_split (length content) CHUNK_SIZE"
    and "shard_count (length content) CHUNK_SIZE \<le> 1000"
    and "\<forall>f\<in>set dir. \<not> matches_prefix (fn @ ''.shard.'') (fst f)"
  shows "\<exists>shs dir'. byte_split sha CHUNK_SIZE keep fn content dir = Inr (shs, dir')
           \<and> length shs = shard_count (length content) CHUNK_SIZE
           \<and> 2 \<le> length shs
           \<and> shard_offset (hd shs) = 0
           \<and> chain 0 shs
           \<and> sum_list (map shard_size shs) = int (length content)
           \<and> (\<forall>sh\<in>set (butlast shs). shard_size sh = int CHUNK_SIZE)
           \<and> 0 < shard_size (last shs) \<and> shard_size (last shs) \<le> int CHUNK_SIZE
           \<and> (\<forall>i<length shs.
                  shard_file (shs ! i) = fn @ ''.shard.'' @ shard_suffix i
                \<and> shard_offset (shs ! i) = int (i * CHUNK_SIZE)
                \<and> shard_size (shs ! i) = int (length (take CHUNK_SIZE (drop (i * CHUNK_SIZE) content)))
                \<and> shard_sha256 (shs ! i) = Some (sha (take CHUNK_SIZE (drop (i * CHUNK_SIZE) content))))"
proof -
  define shs where "shs = shard_records sha 0
      (zip (split_names (fn @ ''.shard.'') (length (split_b CHUNK_SIZE content)))
           (split_b CHUNK_SIZE content))"
  have ne: "content \<noteq> []" using assms(2) unfolding needs_byte_split_def by auto
  obtain dir' where r: "byte_split sha CHUNK_SIZE keep fn content dir = Inr (shs, dir')"
    using byte_split_fresh[OF assms(1) ne assms(3,4), of sha keep] unfolding shs_def by blast
  note p = shard_records_of_pieces[OF assms(1,2) shs_def]
  show ?thesis
    apply (rule exI[of _ shs])
    apply (rule exI[of _ dir'])
    using r p by simp
qed

text \<open>
  The claim as stated speaks of every file above the chunk size. Two inputs \<open>x/m.bin\<close>
  (2 MiB and one byte) and \<open>y/m.bin\<close> (1 MiB and one byte) of one run into an empty
  output directory, with a chunk size of 1 MiB, have the same flat name: the glob for the
  second finds the third piece of the first, and the shard sizes of \<open>y/m.bin\<close> sum to one
  byte more than its size. A file of 1000 MiB and one byte gets no shard list at all.
\<close>

theorem byte_split_counterexample:
  "needs_byte_split (length (deliv_content (ex_two_inputs ! 1))) 1048576
   \<and> isl ex_run = False
   \<and> map fst (fst (projr ex_run)) = [''x/m.bin'', ''y/m.bin'']
   \<and> entry_size (snd (fst (projr ex_run) ! 1)) = 1048577
   \<and> map_option (map shard_file) (shards (snd (fst (projr ex_run) ! 1)))
        = Some [''m.bin.shard.000'', ''m.bin.shard.001'', ''m.bin.shard.002'']
   \<and> map_option (map shard_size) (shards (snd (fst (projr ex_run) ! 1))) = Some [1048576, 1, 1]
   \<and> needs_byte_split (length (replicate 1048576001 (0 :: 8 word))) 1048576
   \<and> byte_split ex_sha 1048576 False ''big.bin'' (replicate 1048576001 0) [] = Inl SuffixesExhausted"
proof -
  have a: "ex_run = Inr ([(''x/m.bin'', ex_first_entry), (''y/m.bin'', ex_second_entry)], ex_output)"
    unfolding ex_run_def ex_two_inputs_def ex_first_entry_def ex_first_shards_def ex_second_entry_def ex_output_def
    by (simp add: phase4_entry_def needs_byte_split_def byte_split_def split_b.simps split_names_def
        shard_suffix_def write_file_def glob_prefix_def matches_prefix_def upt_rec)
  have b: "byte_split ex_sha 1048576 False ''big.bin'' (replicate 1048576001 0) [] = Inl SuffixesExhausted"
    by (rule byte_split_exhausted) (simp_all add: shard_count_def)
  show ?thesis
    unfolding a using b
    by (simp add: ex_two_inputs_def ex_second_entry_def needs_byte_split_def)
qed

theorem byte_split_shard_list_witness:
  "byte_split ex_sha 1048576 False ''m.bin'' (replicate 2097153 0) [] = Inr (ex_first_shards, ex_first_output)
   \<and> length ex_first_shards = 3
   \<and> shard_offset (hd ex_first_shards) = 0
   \<and> chain 0 ex_first_shards
   \<and> sum_list (map shard_size ex_first_shards) = 2097153
   \<and> shard_size (last ex_first_shards) = 1"
proof -
  have a: "0 < (1048576::nat)" "needs_byte_split (length (replicate 2097153 (0 :: 8 word))) 1048576"
    "shard_count (length (replicate 2097153 (0 :: 8 word))) 1048576 \<le> 1000"
    "\<forall>f\<in>set ([] :: directory). \<not> matches_prefix (''m.bin'' @ ''.shard.'') (fst f)"
    by (simp_all add: needs_byte_split_def shard_count_def)
  have e: "byte_split ex_sha 1048576 False ''m.bin'' (replicate 2097153 0) [] = Inr (ex_first_shards, ex_first_output)"
    unfolding ex_first_shards_def ex_first_output_def
    by (simp add: byte_split_def split_b.simps split_names_def
        shard_suffix_def write_file_def glob_prefix_def matches_prefix_def upt_rec)
  from byte_split_shard_list[where sha = ex_sha and fn = "''m.bin''" and keep = False, OF a]
  show ?thesis unfolding e by (simp add: shard_count_def ex_first_shards_def)
qed

section \<open>Narrowing and the loaded bytes\<close>

lemma ex_models_consistent: "filemap_consistent ex_models"
  by (simp add: filemap_consistent_def manifest_consistent_def manifests_or_empty_def ex_models_def unsharded_def)

text \<open>
  Claim C2 at a failing input. The filemap is consistent, the source is adaptive. The
  client fetches the tokenizer (the candidates narrow to the two model variants, the
  larger one stays selected) and the vision model, which is in neither candidate and is
  added to the table by \<open>trackFile\<close>: 152 bytes are loaded. The request for the first
  file of the smaller variant narrows to it; the table is rebuilt from that manifest,
  the vision model's 140 bytes are dropped and \<open>loadedBytes\<close> falls to 12. The
  percentages of the three events emitted are 3, 28 and 16.
\<close>

theorem narrowing_decreases_loadedBytes:
  "st_mode ex_before_narrowing = Adaptive
   \<and> candidates ex_before_narrowing = [''a'', ''b'']
   \<and> loadedBytes ex_before_narrowing = 152
   \<and> candidates (narrowManifest ex_before_narrowing (Some ex_models) ''model_a.onnx'') = [''a'']
   \<and> loadedBytes (narrowManifest ex_before_narrowing (Some ex_models) ''model_a.onnx'') = 12
   \<and> map percent (posted (progress_run ''/m/'' (Some ex_models)
          [RequestStarts ''model_a.onnx'' 178, BytesServed ''model_a.onnx'' 20 2000] ex_before_narrowing))
        = [3, 28, 16]"
  by code_simp

text \<open>The narrowing step of that run lowers \<open>loadedBytes\<close>.\<close>

theorem narrowing_decreases_loadedBytes_witness:
  "loadedBytes (narrowManifest ex_before_narrowing (Some ex_models) ''model_a.onnx'')
     < loadedBytes ex_before_narrowing"
  using narrowing_decreases_loadedBytes by simp

section \<open>Finalization\<close>

lemma percent_of_full: "percent_of t t = (if t > 0 then 100 else 0)"
proof (cases "t > 0")
  case True
  have "(200 * t + t) div (2 * t) = 100"
    by (rule int_div_pos_eq[where r = t]) (use True in auto)
  then show ?thesis using True by (simp add: percent_of_def)
next
  case False
  then show ?thesis by (simp add: percent_of_def)
qed

lemma doBroadcast_posted:
  "posted (doBroadcast pp now st) = posted st @
     [\<lparr>msg_pathPrefix = pp, msg_file = lastFile st,
       fileLoaded = (case map_of (files st) (lastFile st) of Some x \<Rightarrow> fp_loaded x | None \<Rightarrow> 0),
       fileTotal = (case map_of (files st) (lastFile st) of Some x \<Rightarrow> fp_size x | None \<Rightarrow> 0),
       modelLoaded = loadedBytes st, modelTotal = totalBytes st,
       percent = percent_of (loadedBytes st) (totalBytes st),
       msg_done = is_done st, msg_manifest = selectedManifest st, msg_mode = st_mode st\<rparr>]"
  "finalized (doBroadcast pp now st) = finalized st"
  unfolding doBroadcast_def Let_def by simp_all

lemma finalizeProgress_once:
  assumes "\<not> finalized st"
  shows "finalized (finalizeProgress pp now st)
       \<and> (\<exists>m. posted (finalizeProgress pp now st) = posted st @ [m] \<and> msg_done m
              \<and> percent m = (if modelTotal m > 0 then 100 else 0))"
proof -
  obtain actualTotal fs where ff: "finalize_files (activeFiles st) (0, files st) = (actualTotal, fs)"
    by (cases "finalize_files (activeFiles st) (0, files st)")
  define tot where "tot = (if actualTotal \<noteq> 0 then actualTotal else loadedBytes st)"
  define st1 where "st1 = st\<lparr>finalized := True, idleTimer := False, broadcastTimer := False,
                   files := fs, totalBytes := tot, loadedBytes := tot\<rparr>"
  have e: "finalizeProgress pp now st = doBroadcast pp now st1"
    using assms unfolding finalizeProgress_def Let_def ff st1_def tot_def by simp
  have d: "is_done st1" "posted st1 = posted st" "finalized st1"
    "percent_of (loadedBytes st1) (totalBytes st1) = (if totalBytes st1 > 0 then 100 else 0)"
    unfolding st1_def is_done_def by (simp_all add: percent_of_full)
  show ?thesis unfolding e doBroadcast_posted using d by simp
qed

lemma finalizeProgress_again: "finalized st \<Longrightarrow> finalizeProgress pp now st = st"
  unfolding finalizeProgress_def by simp

lemma idleTimeout_finalizes:
  assumes "\<not> finalized st" "idleTimer st" "pendingFetches st = 0"
  shows "idleTimeout pp now st = finalizeProgress pp now (st\<lparr>idleTimer := False\<rparr>)"
  using assms unfolding idleTimeout_def Let_def by simp

lemma recordProgress_frame:
  "finalized (recordProgress rp n st) = finalized st" "posted (recordProgress rp n st) = posted st"
  unfolding recordProgress_def Let_def by (auto split: option.splits)

lemma trackFile_frame:
  "finalized (trackFile rp n st) = finalized st" "posted (trackFile rp n st) = posted st"
  unfolding trackFile_def Let_def by auto

lemma progress_step_finalized:
  assumes "finalized st"
  shows "finalized (progress_step pp fmo ev st)
       \<and> (\<exists>ms. posted (progress_step pp fmo ev st) = posted st @ ms \<and> list_all msg_done ms)"
proof (cases ev)
  case (RequestStarts rp n)
  have "narrowManifest st fmo rp = st" using assms unfolding narrowManifest_def by simp
  then show ?thesis using assms RequestStarts
    by (simp add: onFetchStart_def trackFile_frame)
next
  case (BytesServed rp n now)
  have d: "is_done (recordProgress rp n st)"
    using assms by (simp add: is_done_def recordProgress_frame)
  show ?thesis using assms BytesServed d
    by (simp add: scheduleProgress_def doBroadcast_posted recordProgress_frame is_done_def)
next
  case RequestEnds
  then show ?thesis using assms by (simp add: onFetchEnd_def Let_def)
next
  case (IdleTimerFires now)
  then show ?thesis using assms by (simp add: idleTimeout_def Let_def)
next
  case (BroadcastTimerFires now)
  then show ?thesis using assms
    by (simp add: broadcastTimeout_def doBroadcast_posted is_done_def)
next
  case (CompleteMessage now)
  then show ?thesis using assms by (simp add: finalizeProgress_again)
qed

lemma progress_run_finalized:
  assumes "finalized st"
  shows "finalized (progress_run pp fmo evs st)
       \<and> (\<exists>ms. posted (progress_run pp fmo evs st) = posted st @ ms \<and> list_all msg_done ms)"
  using assms
proof (induction evs arbitrary: st)
  case Nil
  then show ?case by (simp add: progress_run_def)
next
  case (Cons ev evs)
  from progress_step_finalized[OF Cons.prems, of pp fmo ev]
  obtain ms1 where 1: "finalized (progress_step pp fmo ev st)"
    "posted (progress_step pp fmo ev st) = posted st @ ms1" "list_all msg_done ms1" by blast
  from Cons.IH[OF 1(1)]
  obtain ms2 where 2: "finalized (progress_run pp fmo evs (progress_step pp fmo ev st))"
    "posted (progress_run pp fmo evs (progress_step pp fmo ev st)) = posted (progress_step pp fmo ev st) @ ms2"
    "list_all msg_done ms2" by blast
  have "progress_run pp fmo (ev # evs) st = progress_run pp fmo evs (progress_step pp fmo ev st)"
    by (simp add: progress_run_def)
  then show ?case using 1 2 by auto
qed

text \<open>
  Claim C6, as amended. Finalizing a state that is not finalized, by the complete
  message or by the idle timer firing with no fetch pending, emits exactly one event,
  with \<open>done\<close> true (and percent 100 when the total is positive). A finalized state
  stays finalized under every later event of the source, a second finalization changes
  nothing, and every event emitted after the finalization has \<open>done\<close> true.
\<close>

theorem finalization_emits_one_done_event:
  "(\<not> finalized st \<longrightarrow>
      finalized (finalizeProgress pp now st)
    \<and> (\<exists>m. posted (finalizeProgress pp now st) = posted st @ [m] \<and> msg_done m
           \<and> percent m = (if modelTotal m > 0 then 100 else 0)))
   \<and> (\<not> finalized st \<and> idleTimer st \<and> pendingFetches st = 0 \<longrightarrow>
      finalized (idleTimeout pp now st)
    \<and> (\<exists>m. posted (idleTimeout pp now st) = posted st @ [m] \<and> msg_done m))
   \<and> (finalized st \<longrightarrow>
      finalizeProgress pp now st = st
    \<and> finalized (progress_run pp fmo evs st)
    \<and> (\<exists>ms. posted (progress_run pp fmo evs st) = posted st @ ms \<and> list_all msg_done ms))"
proof -
  have b: "finalized (idleTimeout pp now st)
    \<and> (\<exists>m. posted (idleTimeout pp now st) = posted st @ [m] \<and> msg_done m)"
    if "\<not> finalized st" "idleTimer st" "pendingFetches st = 0"
    using finalizeProgress_once[of "st\<lparr>idleTimer := False\<rparr>" pp now] that
    unfolding idleTimeout_finalizes[OF that] by auto
  show ?thesis
    using finalizeProgress_once[of st pp now] b finalizeProgress_again[of st pp now]
      progress_run_finalized[of st pp fmo evs]
    by blast
qed

text \<open>
  The claim as stated says that no event follows the finalization. After the idle timer
  has finalized the state, a request that fetches another file emits a third event, the
  second one with \<open>done\<close> true.
\<close>

theorem events_after_finalization_counterexample:
  "finalized ex_finalized
   \<and> map msg_done (posted ex_finalized) = [False, True]
   \<and> map msg_done (posted (progress_run ''/m/'' (Some ex_filemap)
        [RequestStarts ''model_q4.onnx'' 20, BytesServed ''model_q4.onnx'' 20 5000, RequestEnds]
        ex_finalized)) = [False, True, True]"
  by code_simp

theorem finalization_emits_one_done_event_witness:
  "map msg_done (posted (progress_run ''/m/'' (Some ex_filemap)
        [RequestStarts ''config.json'' 10, BytesServed ''config.json'' 10 1000, RequestEnds]
        (fst (initProgress (makeProgressState []) ex_filemap)))) = [False]
   \<and> finalized ex_finalized
   \<and> map msg_done (posted ex_finalized) = [False, True]
   \<and> map percent (posted ex_finalized) = [33, 100]
   \<and> finalizeProgress ''/m/'' 4000 ex_finalized = ex_finalized
   \<and> list_all msg_done (drop 2 (posted (progress_run ''/m/'' (Some ex_filemap)
        [RequestStarts ''model_q4.onnx'' 20, BytesServed ''model_q4.onnx'' 20 5000, RequestEnds]
        ex_finalized)))"
proof -
  define st where "st = progress_run ''/m/'' (Some ex_filemap)
        [RequestStarts ''config.json'' 10, BytesServed ''config.json'' 10 1000, RequestEnds]
        (fst (initProgress (makeProgressState []) ex_filemap))"
  have pre: "\<not> finalized st \<and> idleTimer st \<and> pendingFetches st = 0"
    unfolding st_def by code_simp
  have p: "map msg_done (posted st) = [False]" "map percent (posted st) = [33]"
    unfolding st_def by code_simp+
  have fin: "ex_finalized = idleTimeout ''/m/'' 3000 st"
    unfolding ex_finalized_def st_def progress_run_def by simp
  have f: "finalized ex_finalized" by code_simp
  have pc: "map percent (posted ex_finalized) = [33, 100]" by code_simp
  have l: "length (posted ex_finalized) = 2" by code_simp
  note inst = finalization_emits_one_done_event[of st "''/m/''" 3000 "Some ex_filemap" "[]"]
    finalization_emits_one_done_event[of ex_finalized "''/m/''" 4000 "Some ex_filemap"
      "[RequestStarts ''model_q4.onnx'' 20, BytesServed ''model_q4.onnx'' 20 5000, RequestEnds]"]
  from inst(1) pre obtain m where m: "posted ex_finalized = posted st @ [m]" "msg_done m"
    unfolding fin by blast
  from inst(2) f obtain ms where ms: "finalizeProgress ''/m/'' 4000 ex_finalized = ex_finalized"
    "posted (progress_run ''/m/'' (Some ex_filemap)
        [RequestStarts ''model_q4.onnx'' 20, BytesServed ''model_q4.onnx'' 20 5000, RequestEnds]
        ex_finalized) = posted ex_finalized @ ms" "list_all msg_done ms"
    by blast
  show ?thesis
    using p m ms f pc l unfolding st_def[symmetric] by simp
qed

section \<open>At most one whole-shard request per URL\<close>

lemma inv_init: "dedup_inv (dedup_init c)"
  by (simp add: dedup_inv_def inflight_covers_def owners_registered_def owners_distinct_def dedup_init_def)

lemma upd_owner:
  "\<not> is_owner new \<Longrightarrow> ts[t := new] ! ta = Owner p u k \<Longrightarrow> ta < length ts \<Longrightarrow> ts ! ta = Owner p u k"
  by (cases "ta = t") (auto simp: is_owner_def)

lemma app_owner:
  "\<not> is_owner new \<Longrightarrow> (ts @ [new]) ! ta = Owner p u k \<Longrightarrow> ta < length (ts @ [new])
     \<Longrightarrow> ts ! ta = Owner p u k \<and> ta < length ts"
proof (cases "ta < length ts")
  case True
  assume "(ts @ [new]) ! ta = Owner p u k"
  then show ?thesis using True by (simp add: nth_append)
next
  case False
  assume "ta < length (ts @ [new])" "(ts @ [new]) ! ta = Owner p u k" "\<not> is_owner new"
  then have "ta = length ts" "new = Owner p u k" using False by (simp_all add: nth_append)
  then show ?thesis using \<open>\<not> is_owner new\<close> by (simp add: is_owner_def)
qed

lemma registered_task_update:
  assumes "owners_registered inflight ps ts" "\<not> is_owner new"
  shows "owners_registered inflight ps (ts[t := new])"
  unfolding owners_registered_def
proof (intro allI impI)
  fix ta p u k assume a: "ta < length (ts[t := new])" "ts[t := new] ! ta = Owner p u k"
  have l: "ta < length ts" using a(1) by simp
  have "ts ! ta = Owner p u k" "ta < length ts" using upd_owner[OF assms(2) a(2) l] l by simp_all
  then show "inflight u = Some p \<and> p < length ps"
    using assms(1) unfolding owners_registered_def by blast
qed

lemma distinct_task_update:
  assumes "owners_distinct ts" "\<not> is_owner new"
  shows "owners_distinct (ts[t := new])"
  unfolding owners_distinct_def
proof (intro allI impI)
  fix ta tb p u k u' k'
  assume a: "ta < length (ts[t := new])" "tb < length (ts[t := new])"
    "ts[t := new] ! ta = Owner p u k \<and> ts[t := new] ! tb = Owner p u' k'"
  then have l: "ta < length ts" "tb < length ts" by simp_all
  have "ts ! ta = Owner p u k" "ts ! tb = Owner p u' k'" "ta < length ts" "tb < length ts"
    using upd_owner[OF assms(2) conjunct1[OF a(3)] l(1)] upd_owner[OF assms(2) conjunct2[OF a(3)] l(2)] l
    by simp_all
  then show "ta = tb" using assms(1) unfolding owners_distinct_def by blast
qed

lemma registered_task_append:
  assumes "owners_registered inflight ps ts" "\<not> is_owner new"
  shows "owners_registered inflight ps (ts @ [new])"
  unfolding owners_registered_def
proof (intro allI impI)
  fix ta p u k assume a: "ta < length (ts @ [new])" "(ts @ [new]) ! ta = Owner p u k"
  have "ts ! ta = Owner p u k" "ta < length ts" using app_owner[OF assms(2) a(2) a(1)] by simp_all
  then show "inflight u = Some p \<and> p < length ps"
    using assms(1) unfolding owners_registered_def by blast
qed

lemma distinct_task_append:
  assumes "owners_distinct ts" "\<not> is_owner new"
  shows "owners_distinct (ts @ [new])"
  unfolding owners_distinct_def
proof (intro allI impI)
  fix ta tb p u k u' k'
  assume a: "ta < length (ts @ [new])" "tb < length (ts @ [new])"
    "(ts @ [new]) ! ta = Owner p u k \<and> (ts @ [new]) ! tb = Owner p u' k'"
  then have "ts ! ta = Owner p u k" "ts ! tb = Owner p u' k'" "ta < length ts" "tb < length ts"
    using app_owner[OF assms(2) conjunct1[OF a(3)] a(1)] app_owner[OF assms(2) conjunct2[OF a(3)] a(2)]
    by simp_all
  then show "ta = tb" using assms(1) unfolding owners_distinct_def by blast
qed

lemma covers_promise_update:
  assumes "inflight_covers inflight ps" "p < length ps" "busy_with (ps ! p) u"
    and "\<forall>u'. busy_with new u' \<longrightarrow> u' = u"
  shows "inflight_covers inflight (ps[p := new])"
  unfolding inflight_covers_def
proof (intro allI impI)
  fix q v assume a: "q < length (ps[p := new])" "busy_with (ps[p := new] ! q) v"
  show "inflight v = Some q"
  proof (cases "q = p")
    case True
    then have "v = u" using a assms(2,4) by simp
    then show ?thesis using assms(1,2,3) True unfolding inflight_covers_def by blast
  next
    case False
    then show ?thesis using a assms(1) unfolding inflight_covers_def by simp
  qed
qed

lemma registered_promise_update:
  "owners_registered inflight ps ts \<Longrightarrow> owners_registered inflight (ps[p := new]) ts"
  unfolding owners_registered_def by simp

lemma covers_start:
  assumes "inflight_covers inflight ps" "inflight url = None"
  shows "inflight_covers (inflight(url \<mapsto> length ps)) (ps @ [Fetching url])"
  unfolding inflight_covers_def
proof (intro allI impI)
  fix q v assume a: "q < length (ps @ [Fetching url])" "busy_with ((ps @ [Fetching url]) ! q) v"
  show "(inflight(url \<mapsto> length ps)) v = Some q"
  proof (cases "q < length ps")
    case True
    then have "inflight v = Some q" using a assms(1) unfolding inflight_covers_def
      by (simp add: nth_append)
    then show ?thesis using assms(2) by auto
  next
    case False
    then have "q = length ps" using a(1) by simp
    then show ?thesis using a(2) by (simp add: busy_with_def)
  qed
qed

lemma registered_start:
  assumes "owners_registered inflight ps ts" "inflight url = None" "t < length ts"
  shows "owners_registered (inflight(url \<mapsto> length ps)) (ps @ [Fetching url])
           (ts[t := Owner (length ps) url k])"
  unfolding owners_registered_def
proof (intro allI impI)
  fix ta p u k'
  assume a: "ta < length (ts[t := Owner (length ps) url k])"
    "ts[t := Owner (length ps) url k] ! ta = Owner p u k'"
  show "(inflight(url \<mapsto> length ps)) u = Some p \<and> p < length (ps @ [Fetching url])"
  proof (cases "ta = t")
    case True
    then show ?thesis using a assms(3) by simp
  next
    case False
    then have "ts ! ta = Owner p u k'" "ta < length ts" using a by simp_all
    then have "inflight u = Some p \<and> p < length ps"
      using assms(1) unfolding owners_registered_def by blast
    then show ?thesis using assms(2) by auto
  qed
qed

lemma distinct_start:
  assumes "owners_distinct ts" "owners_registered inflight ps ts" "t < length ts"
  shows "owners_distinct (ts[t := Owner (length ps) url k])"
  unfolding owners_distinct_def
proof (intro allI impI)
  fix ta tb p u k1 u' k2
  assume a: "ta < length (ts[t := Owner (length ps) url k])" "tb < length (ts[t := Owner (length ps) url k])"
    "ts[t := Owner (length ps) url k] ! ta = Owner p u k1
       \<and> ts[t := Owner (length ps) url k] ! tb = Owner p u' k2"
  have old: "tc < length ts \<Longrightarrow> tc \<noteq> t \<Longrightarrow> ts[t := Owner (length ps) url k] ! tc = Owner q v kk
      \<Longrightarrow> q < length ps" for tc q v kk
    using assms(2) unfolding owners_registered_def by auto
  show "ta = tb"
  proof (cases "ta = t")
    case True
    then have "p = length ps" using a assms(3) by simp
    then show ?thesis using old[of tb p u' k2] a True by auto
  next
    case False
    then have pa: "p < length ps" using old[of ta p u k1] a by auto
    show ?thesis
    proof (cases "tb = t")
      case True
      then have "p = length ps" using a assms(3) by simp
      then show ?thesis using pa by simp
    next
      case tbf: False
      then show ?thesis using a False assms(1) unfolding owners_distinct_def by auto
    qed
  qed
qed

lemma covers_owner_done:
  assumes "inflight_covers inflight ps" "inflight u = Some p" "p < length ps" "ps ! p = Settled r"
  shows "inflight_covers (inflight(u := None)) ps"
  unfolding inflight_covers_def
proof (intro allI impI)
  fix q v assume a: "q < length ps" "busy_with (ps ! q) v"
  then have iq: "inflight v = Some q" using assms(1) unfolding inflight_covers_def by blast
  have "v \<noteq> u"
  proof
    assume "v = u"
    then have "q = p" using iq assms(2) by simp
    then show False using a(2) assms(4) by (simp add: busy_with_def)
  qed
  then show "(inflight(u := None)) v = Some q" using iq by simp
qed

lemma registered_owner_done:
  assumes "owners_registered inflight ps ts" "owners_distinct ts" "t < length ts"
    "ts ! t = Owner p u k"
  shows "owners_registered (inflight(u := None)) ps (ts[t := Returned x])"
  unfolding owners_registered_def
proof (intro allI impI)
  fix ta q v kk
  assume a: "ta < length (ts[t := Returned x])" "ts[t := Returned x] ! ta = Owner q v kk"
  then have ne: "ta \<noteq> t" by (cases "ta = t") auto
  then have o: "ts ! ta = Owner q v kk" "ta < length ts" using a by simp_all
  then have r: "inflight v = Some q \<and> q < length ps"
    using assms(1) unfolding owners_registered_def by blast
  have "v \<noteq> u"
  proof
    assume "v = u"
    moreover have "inflight u = Some p" using assms(1,3,4) unfolding owners_registered_def by blast
    ultimately have "q = p" using r by simp
    then have "ta = t" using o assms(2,3,4) unfolding owners_distinct_def by blast
    then show False using ne by simp
  qed
  then show "(inflight(u := None)) v = Some q \<and> q < length ps" using r by simp
qed


lemma inv_task_update:
  assumes "dedup_inv s" "\<not> is_owner new"
  shows "dedup_inv (s\<lparr>tasks := (tasks s)[t := new]\<rparr>)"
    and "dedup_inv (s\<lparr>tasks := (tasks s)[t := new], d_cache := c\<rparr>)"
proof -
  have r: "owners_registered (shardInflight s) (promises s) (tasks s)"
    and d: "owners_distinct (tasks s)"
    using assms(1) unfolding dedup_inv_def by simp_all
  show "dedup_inv (s\<lparr>tasks := (tasks s)[t := new]\<rparr>)"
    and "dedup_inv (s\<lparr>tasks := (tasks s)[t := new], d_cache := c\<rparr>)"
    using assms(1) registered_task_update[OF r assms(2)] distinct_task_update[OF d assms(2)]
    unfolding dedup_inv_def by simp_all
qed

lemma inv_task_append:
  assumes "dedup_inv s" "\<not> is_owner new"
  shows "dedup_inv (s\<lparr>tasks := tasks s @ [new]\<rparr>)"
proof -
  have r: "owners_registered (shardInflight s) (promises s) (tasks s)"
    and d: "owners_distinct (tasks s)"
    using assms(1) unfolding dedup_inv_def by simp_all
  show ?thesis
    using assms(1) registered_task_append[OF r assms(2)] distinct_task_append[OF d assms(2)]
    unfolding dedup_inv_def by simp
qed

lemma inv_promise_update:
  assumes "dedup_inv s" "p < length (promises s)" "busy_with (promises s ! p) u"
    and "\<forall>u'. busy_with new u' \<longrightarrow> u' = u"
  shows "dedup_inv (s\<lparr>promises := (promises s)[p := new]\<rparr>)"
    and "dedup_inv (s\<lparr>promises := (promises s)[p := new], d_cache := c\<rparr>)"
proof -
  have c0: "inflight_covers (shardInflight s) (promises s)"
    and r: "owners_registered (shardInflight s) (promises s) (tasks s)"
    using assms(1) unfolding dedup_inv_def by simp_all
  show "dedup_inv (s\<lparr>promises := (promises s)[p := new]\<rparr>)"
    and "dedup_inv (s\<lparr>promises := (promises s)[p := new], d_cache := c\<rparr>)"
    using assms(1) covers_promise_update[OF c0 assms(2,3,4)] registered_promise_update[OF r, of p new]
    unfolding dedup_inv_def by simp_all
qed

lemma inv_join_or_start:
  assumes "dedup_inv s" "t < length (tasks s)"
  shows "dedup_inv (join_or_start t url k s)"
proof (cases "shardInflight s url")
  case None
  have c: "inflight_covers (shardInflight s) (promises s)"
    and r: "owners_registered (shardInflight s) (promises s) (tasks s)"
    and d: "owners_distinct (tasks s)"
    using assms(1) unfolding dedup_inv_def by simp_all
  show ?thesis
    using None covers_start[OF c None] registered_start[OF r None assms(2)] distinct_start[OF d r assms(2)]
    unfolding join_or_start_def dedup_inv_def by simp
next
  case (Some p)
  then show ?thesis
    using inv_task_update(1)[OF assms(1), of "Joined p k" t]
    unfolding join_or_start_def by (simp add: is_owner_def)
qed

lemma inv_owner_done:
  assumes "dedup_inv s" "t < length (tasks s)" "tasks s ! t = Owner p u k"
    and "promises s ! p = Settled r"
  shows "dedup_inv (s\<lparr>shardInflight := (shardInflight s)(u := None),
                       tasks := (tasks s)[t := Returned x]\<rparr>)"
proof -
  have c: "inflight_covers (shardInflight s) (promises s)"
    and r: "owners_registered (shardInflight s) (promises s) (tasks s)"
    and d: "owners_distinct (tasks s)"
    using assms(1) unfolding dedup_inv_def by simp_all
  have reg: "shardInflight s u = Some p" "p < length (promises s)"
    using r assms(2,3) unfolding owners_registered_def by blast+
  have "\<not> is_owner (Returned x)" by (simp add: is_owner_def)
  then have "owners_distinct ((tasks s)[t := Returned x])"
    using d distinct_task_update by blast
  then show ?thesis
    using covers_owner_done[OF c reg assms(4)] registered_owner_done[OF r d assms(2,3)]
    unfolding dedup_inv_def by simp
qed

lemma dedup_step_inv:
  assumes "dedup_inv s"
  shows "dedup_inv (dedup_step ev s)"
proof (cases ev)
  case (CallFetchShard url)
  then show ?thesis using inv_task_append[OF assms] by (simp add: is_owner_def)
next
  case (CallFetchShardSlice url a b)
  then show ?thesis using inv_task_append[OF assms] by (simp add: is_owner_def)
next
  case (CacheAnswers t ok)
  show ?thesis
  proof (cases "t < length (tasks s)")
    case False
    then show ?thesis using assms CacheAnswers by simp
  next
    case True
    show ?thesis
    proof (cases "tasks s ! t")
      case (AwaitCache url k)
      then show ?thesis
        using CacheAnswers True inv_join_or_start[OF assms True] inv_task_update(1)[OF assms]
        by (simp add: is_owner_def split: option.splits)
    next
      case (SliceAwaitCache url a b)
      then show ?thesis
        using CacheAnswers True inv_task_update(1)[OF assms]
        by (simp add: is_owner_def split: option.splits)
    qed (use assms CacheAnswers True in simp_all)
  qed
next
  case (NetworkAnswers p r)
  show ?thesis
  proof (cases "p < length (promises s)")
    case False
    then show ?thesis using assms NetworkAnswers by simp
  next
    case True
    show ?thesis
    proof (cases "promises s ! p")
      case (Fetching url)
      then have b: "busy_with (promises s ! p) url" by (simp add: busy_with_def)
      show ?thesis
        using NetworkAnswers True Fetching inv_promise_update(1)[OF assms True b]
        by (simp add: busy_with_def split: fetch_result.splits)
    qed (use assms NetworkAnswers True in simp_all)
  qed
next
  case (CacheWritten p ok)
  show ?thesis
  proof (cases "p < length (promises s)")
    case False
    then show ?thesis using assms CacheWritten by simp
  next
    case True
    show ?thesis
    proof (cases "promises s ! p")
      case (Caching url buf)
      then have b: "busy_with (promises s ! p) url" by (simp add: busy_with_def)
      show ?thesis
        using CacheWritten True Caching inv_promise_update[OF assms True b]
        by (simp add: busy_with_def)
    qed (use assms CacheWritten True in simp_all)
  qed
next
  case (PromiseSettles t)
  show ?thesis
  proof (cases "t < length (tasks s)")
    case False
    then show ?thesis using assms PromiseSettles by simp
  next
    case True
    show ?thesis
    proof (cases "tasks s ! t")
      case (Joined p k)
      then show ?thesis
        using PromiseSettles True assms inv_task_update(1)[OF assms]
        by (simp add: is_owner_def split: promise.splits)
    next
      case (Owner p url k)
      then show ?thesis
        using PromiseSettles True assms inv_owner_done[OF assms True Owner]
        by (simp split: promise.splits)
    qed (use assms PromiseSettles True in simp_all)
  qed
next
  case (RangeAnswers t r ok)
  show ?thesis
  proof (cases "t < length (tasks s)")
    case False
    then show ?thesis using assms RangeAnswers by simp
  next
    case True
    show ?thesis
    proof (cases "tasks s ! t")
      case (SliceFetching url a b)
      then show ?thesis
        using RangeAnswers True inv_task_update[OF assms]
        by (simp add: is_owner_def split: fetch_result.splits)
    qed (use assms RangeAnswers True in simp_all)
  qed
qed

lemma dedup_run_inv: "dedup_inv s \<Longrightarrow> dedup_inv (dedup_run evs s)"
  unfolding dedup_run_def by (induction evs arbitrary: s) (simp_all add: dedup_step_inv)


lemma at_most_one:
  "(\<forall>i<length xs. \<forall>j<length xs. P (xs ! i) \<and> P (xs ! j) \<longrightarrow> i = j) \<Longrightarrow> length (filter P xs) \<le> 1"
proof (induction xs)
  case Nil
  then show ?case by simp
next
  case (Cons x xs)
  have tl: "\<forall>i<length xs. \<forall>j<length xs. P (xs ! i) \<and> P (xs ! j) \<longrightarrow> i = j"
  proof (intro allI impI)
    fix i j assume "i < length xs" "j < length xs" "P (xs ! i) \<and> P (xs ! j)"
    then have "Suc i = Suc j" using Cons.prems[rule_format, of "Suc i" "Suc j"] by simp
    then show "i = j" by simp
  qed
  show ?case
  proof (cases "P x")
    case False
    then show ?thesis using Cons.IH[OF tl] by simp
  next
    case True
    have "filter P xs = []"
    proof (rule ccontr)
      assume "filter P xs \<noteq> []"
      then obtain y where "y \<in> set xs" "P y" by (auto simp: filter_empty_conv)
      then obtain j where "j < length xs" "xs ! j = y" by (auto simp: in_set_conv_nth)
      then have "0 = Suc j" using Cons.prems[rule_format, of 0 "Suc j"] True \<open>P y\<close> by simp
      then show False by simp
    qed
    then show ?thesis using True by simp
  qed
qed

lemma inv_shard_fetches:
  assumes "dedup_inv s"
  shows "shard_fetches s url \<le> 1"
  unfolding shard_fetches_def
proof (rule at_most_one, intro allI impI)
  fix i j assume a: "i < length (promises s)" "j < length (promises s)"
    "promises s ! i = Fetching url \<and> promises s ! j = Fetching url"
  have c: "inflight_covers (shardInflight s) (promises s)" using assms unfolding dedup_inv_def by simp
  have bi: "busy_with (promises s ! i) url" and bj: "busy_with (promises s ! j) url"
    using a(3) by (simp_all add: busy_with_def)
  have "shardInflight s url = Some i"
    using c a(1) bi unfolding inflight_covers_def by blast
  moreover have "shardInflight s url = Some j"
    using c a(2) bj unfolding inflight_covers_def by blast
  ultimately show "i = j" by simp
qed

lemma reachable_inv: "dedup_inv (dedup_run evs (dedup_init c))"
  by (rule dedup_run_inv[OF inv_init])

lemma joins_pending:
  assumes "t < length (tasks s)" "tasks s ! t = AwaitCache url k" "shardInflight s url = Some p"
    "ok \<longrightarrow> d_cache s url = None"
  shows "dedup_step (CacheAnswers t ok) s = s\<lparr>tasks := (tasks s)[t := Joined p k]\<rparr>"
  using assms by (auto simp: join_or_start_def)

lemma starts_when_absent:
  assumes "t < length (tasks s)" "tasks s ! t = AwaitCache url k" "shardInflight s url = None"
    "ok \<longrightarrow> d_cache s url = None"
  shows "dedup_step (CacheAnswers t ok) s =
           s\<lparr>promises := promises s @ [Fetching url],
             shardInflight := (shardInflight s)(url \<mapsto> length (promises s)),
             tasks := (tasks s)[t := Owner (length (promises s)) url k]\<rparr>"
  using assms by (auto simp: join_or_start_def)

lemma joiner_receives:
  assumes "t < length (tasks s)" "tasks s ! t = Joined p k" "p < length (promises s)"
    "promises s ! p = Settled r"
  shows "dedup_step (PromiseSettles t) s = s\<lparr>tasks := (tasks s)[t := Returned (after_slice k r)]\<rparr>"
  using assms by simp

lemma owner_removes:
  assumes "dedup_inv s" "t < length (tasks s)" "tasks s ! t = Owner p url k" "promises s ! p = Settled r"
  shows "dedup_step (PromiseSettles t) s =
           s\<lparr>shardInflight := (shardInflight s)(url := None),
             tasks := (tasks s)[t := Returned (after_slice k r)]\<rparr>"
proof -
  have "p < length (promises s)"
    using assms(1,2,3) unfolding dedup_inv_def owners_registered_def by blast
  then show ?thesis using assms by simp
qed

text \<open>
  Claim C3, as amended. In every state that calls of \<open>fetchShard\<close> and \<open>fetchShardSlice\<close>
  can reach, in any interleaving and with any answers of the network and the cache, at
  most one whole-shard request started by \<open>fetchShard\<close> is in progress for a URL. A
  caller that misses the cache while a promise is registered for the URL joins that
  promise and starts no request; when the promise has settled it returns the promise's
  result, the bytes or the error. The owner, resuming from a settled promise, removes
  the entry whether the promise was fulfilled or rejected, and a caller that misses the
  cache while no entry is registered starts a new request and registers it.
\<close>

theorem whole_shard_fetches_are_deduplicated:
  assumes "s = dedup_run evs (dedup_init c)"
  shows "shard_fetches s url \<le> 1
       \<and> (\<forall>t<length (tasks s). \<forall>k p ok.
             tasks s ! t = AwaitCache url k \<and> shardInflight s url = Some p \<and> (ok \<longrightarrow> d_cache s url = None)
             \<longrightarrow> dedup_step (CacheAnswers t ok) s = s\<lparr>tasks := (tasks s)[t := Joined p k]\<rparr>)
       \<and> (\<forall>t<length (tasks s). \<forall>k p r.
             tasks s ! t = Joined p k \<and> p < length (promises s) \<and> promises s ! p = Settled r
             \<longrightarrow> dedup_step (PromiseSettles t) s
                   = s\<lparr>tasks := (tasks s)[t := Returned (after_slice k r)]\<rparr>)
       \<and> (\<forall>t<length (tasks s). \<forall>k p r.
             tasks s ! t = Owner p url k \<and> promises s ! p = Settled r
             \<longrightarrow> dedup_step (PromiseSettles t) s
                   = s\<lparr>shardInflight := (shardInflight s)(url := None),
                       tasks := (tasks s)[t := Returned (after_slice k r)]\<rparr>)
       \<and> (\<forall>t<length (tasks s). \<forall>k ok.
             tasks s ! t = AwaitCache url k \<and> shardInflight s url = None \<and> (ok \<longrightarrow> d_cache s url = None)
             \<longrightarrow> dedup_step (CacheAnswers t ok) s
                   = s\<lparr>promises := promises s @ [Fetching url],
                       shardInflight := (shardInflight s)(url \<mapsto> length (promises s)),
                       tasks := (tasks s)[t := Owner (length (promises s)) url k]\<rparr>)"
proof -
  have inv: "dedup_inv s" unfolding assms by (rule reachable_inv)
  show ?thesis
    using inv_shard_fetches[OF inv, of url] joins_pending[of _ s url] starts_when_absent[of _ s url]
      joiner_receives[of _ s] owner_removes[OF inv, of _ _ url]
    by blast
qed

text \<open>
  The claim as stated counts every network fetch of a shard URL. \<open>fetchShardSlice\<close>
  sends its \<open>Range\<close> request without looking at \<open>shardInflight\<close>: two range reads of one
  shard, or a range read next to a whole-shard fetch, have two requests in progress for
  the same URL.
\<close>

theorem range_requests_are_not_deduplicated_counterexample:
  "network_fetches
     (dedup_run [CallFetchShardSlice ex_url 0 0, CallFetchShardSlice ex_url 1 1,
                 CacheAnswers 0 True, CacheAnswers 1 True] (dedup_init Map.empty)) ex_url = 2
   \<and> network_fetches
     (dedup_run [CallFetchShard ex_url, CacheAnswers 0 True,
                 CallFetchShardSlice ex_url 0 0, CacheAnswers 1 True] (dedup_init Map.empty)) ex_url = 2"
  by code_simp


theorem whole_shard_fetches_are_deduplicated_witness:
  "shard_fetches ex_two_callers ex_url = 1
   \<and> tasks ex_two_callers = [Owner 0 ex_url None, AwaitCache ex_url None]
   \<and> tasks (dedup_step (CacheAnswers 1 True) ex_two_callers) = [Owner 0 ex_url None, Joined 0 None]
   \<and> promises (dedup_step (CacheAnswers 1 True) ex_two_callers) = [Fetching ex_url]
   \<and> promises ex_failed_fetch = [Settled (Inl NetworkFailure)]
   \<and> tasks (dedup_step (PromiseSettles 1) ex_failed_fetch) ! 1 = Returned (Inl NetworkFailure)
   \<and> shardInflight ex_failed_fetch ex_url = Some 0
   \<and> shardInflight (dedup_step (PromiseSettles 0) ex_failed_fetch) ex_url = None
   \<and> tasks (dedup_step (PromiseSettles 0) ex_failed_fetch) ! 0 = Returned (Inl NetworkFailure)"
proof -
  have b: "tasks ex_two_callers = [Owner 0 ex_url None, AwaitCache ex_url None]"
    "shardInflight ex_two_callers ex_url = Some 0" "d_cache ex_two_callers ex_url = None"
    "promises ex_two_callers = [Fetching ex_url]"
    by code_simp+
  have c: "tasks ex_failed_fetch = [Owner 0 ex_url None, Joined 0 None]"
    "promises ex_failed_fetch = [Settled (Inl NetworkFailure)]"
    "shardInflight ex_failed_fetch ex_url = Some 0"
    by code_simp+
  have n: "shard_fetches ex_two_callers ex_url \<ge> 1" by code_simp
  note i1 = whole_shard_fetches_are_deduplicated[OF ex_two_callers_def, of ex_url]
  note i2 = whole_shard_fetches_are_deduplicated[OF ex_failed_fetch_def, of ex_url]
  have one: "shard_fetches ex_two_callers ex_url = 1" using conjunct1[OF i1] n by simp
  have h1: "1 < length (tasks ex_two_callers)"
    "tasks ex_two_callers ! 1 = AwaitCache ex_url None \<and> shardInflight ex_two_callers ex_url = Some 0
       \<and> (True \<longrightarrow> d_cache ex_two_callers ex_url = None)"
    using b by simp_all
  have "dedup_step (CacheAnswers 1 True) ex_two_callers
          = ex_two_callers\<lparr>tasks := (tasks ex_two_callers)[1 := Joined 0 None]\<rparr>"
    by (rule i1[THEN conjunct2, THEN conjunct1, rule_format, OF h1])
  then have j: "tasks (dedup_step (CacheAnswers 1 True) ex_two_callers) = [Owner 0 ex_url None, Joined 0 None]"
    "promises (dedup_step (CacheAnswers 1 True) ex_two_callers) = [Fetching ex_url]"
    using b by simp_all
  have h2: "1 < length (tasks ex_failed_fetch)"
    "tasks ex_failed_fetch ! 1 = Joined 0 None \<and> 0 < length (promises ex_failed_fetch)
       \<and> promises ex_failed_fetch ! 0 = Settled (Inl NetworkFailure)"
    using c by simp_all
  have "dedup_step (PromiseSettles 1) ex_failed_fetch
          = ex_failed_fetch\<lparr>tasks := (tasks ex_failed_fetch)[1 := Returned (after_slice None (Inl NetworkFailure))]\<rparr>"
    by (rule i2[THEN conjunct2, THEN conjunct2, THEN conjunct1, rule_format, OF h2])
  then have r1: "tasks (dedup_step (PromiseSettles 1) ex_failed_fetch) ! 1 = Returned (Inl NetworkFailure)"
    using c by (simp add: after_slice_def)
  have h3: "0 < length (tasks ex_failed_fetch)"
    "tasks ex_failed_fetch ! 0 = Owner 0 ex_url None
       \<and> promises ex_failed_fetch ! 0 = Settled (Inl NetworkFailure)"
    using c by simp_all
  have "dedup_step (PromiseSettles 0) ex_failed_fetch
          = ex_failed_fetch\<lparr>shardInflight := (shardInflight ex_failed_fetch)(ex_url := None),
               tasks := (tasks ex_failed_fetch)[0 := Returned (after_slice None (Inl NetworkFailure))]\<rparr>"
    by (rule i2[THEN conjunct2, THEN conjunct2, THEN conjunct2, THEN conjunct1, rule_format, OF h3])
  then have r0: "shardInflight (dedup_step (PromiseSettles 0) ex_failed_fetch) ex_url = None"
    "tasks (dedup_step (PromiseSettles 0) ex_failed_fetch) ! 0 = Returned (Inl NetworkFailure)"
    using c by (simp_all add: after_slice_def)
  show ?thesis using one b(1) j c(2,3) r1 r0 by simp
qed

end
